theory Spec2Isabelle
  imports Main
begin

section \<open>Errors\<close>

text \<open>
  The exceptions the modelled code can raise: \<open>ValueError\<close> from the \<open>date\<close>
  constructor (a field out of range) and \<open>OverflowError\<close> from the constructor (an
  argument that does not fit a C \<open>int\<close>) and from date arithmetic (the result leaves
  the range of the \<open>date\<close> type).  A raising computation is a value \<open>Inl e\<close>, a
  returning one is \<open>Inr v\<close>.
\<close>

datatype error = ValueError | OverflowError

definition and_then :: "error + 'a \<Rightarrow> ('a \<Rightarrow> error + 'b) \<Rightarrow> error + 'b" where
  "and_then r f = (case r of Inl e \<Rightarrow> Inl e | Inr v \<Rightarrow> f v)"

section \<open>The \<open>datetime.date\<close> type\<close>

text \<open>
  \<open>overlay_symbols.py\<close> computes with \<open>datetime.date\<close> and \<open>datetime.timedelta\<close>.
  The arithmetic of this section follows the reference implementation of the standard
  library (\<open>Lib/_pydatetime.py\<close>): a date is a triple of year, month and day, its
  ordinal counts days from 0001-01-01 (ordinal 1), and \<open>date + timedelta\<close> goes through
  the ordinal.  Python's \<open>//\<close> and \<open>%\<close> round towards minus infinity, as \<open>div\<close> and
  \<open>mod\<close> on \<open>int\<close> do.  A \<open>timedelta(days=k)\<close> is the integer \<open>k\<close>; the
  program builds them from at most 49 days, far inside the range of \<open>timedelta\<close>.  The
  \<open>assert\<close> statements of the library are left out.
\<close>

record date =
  year :: int
  month :: int
  day :: int

definition MINYEAR :: int where "MINYEAR = 1"
definition MAXYEAR :: int where "MAXYEAR = 9999"
definition MAXORDINAL :: int where "MAXORDINAL = 3652059"

definition DAYS_IN_MONTH :: "int list" where
  "DAYS_IN_MONTH = [-1, 31, 28, 31, 30, 31, 30, 31, 31, 30, 31, 30, 31]"

definition DAYS_BEFORE_MONTH :: "int list" where
  "DAYS_BEFORE_MONTH = [-1, 0, 31, 59, 90, 120, 151, 181, 212, 243, 273, 304, 334]"

definition is_leap :: "int \<Rightarrow> bool" where
  "is_leap y = (y mod 4 = 0 \<and> (y mod 100 \<noteq> 0 \<or> y mod 400 = 0))"

definition days_before_year :: "int \<Rightarrow> int" where
  "days_before_year y0 = (let y = y0 - 1 in y * 365 + y div 4 - y div 100 + y div 400)"

definition days_in_month :: "int \<Rightarrow> int \<Rightarrow> int" where
  "days_in_month y m = (if m = 2 \<and> is_leap y then 29 else DAYS_IN_MONTH ! nat m)"

definition days_before_month :: "int \<Rightarrow> int \<Rightarrow> int" where
  "days_before_month y m = DAYS_BEFORE_MONTH ! nat m + (if m > 2 \<and> is_leap y then 1 else 0)"

definition ymd2ord :: "int \<Rightarrow> int \<Rightarrow> int \<Rightarrow> int" where
  "ymd2ord y m d = days_before_year y + days_before_month y m + d"

definition DI400Y :: int where "DI400Y = days_before_year 401"
definition DI100Y :: int where "DI100Y = days_before_year 101"
definition DI4Y :: int where "DI4Y = days_before_year 5"

definition ord2ymd :: "int \<Rightarrow> int \<times> int \<times> int" where
  "ord2ymd n0 =
    (let n = n0 - 1;
         n400 = n div DI400Y; n = n mod DI400Y;
         yr = n400 * 400 + 1;
         n100 = n div DI100Y; n = n mod DI100Y;
         n4 = n div DI4Y; n = n mod DI4Y;
         n1 = n div 365; n = n mod 365;
         yr = yr + (n100 * 100 + n4 * 4 + n1)
     in if n1 = 4 \<or> n100 = 4 then (yr - 1, 12, 31)
        else
          let leapyear = (n1 = 3 \<and> (n4 \<noteq> 24 \<or> n100 = 3));
              mo = (n + 50) div 32;
              preceding = DAYS_BEFORE_MONTH ! nat mo + (if mo > 2 \<and> leapyear then 1 else 0)
          in if preceding > n then
               let mo = mo - 1;
                   preceding = preceding - (DAYS_IN_MONTH ! nat mo + (if mo = 2 \<and> leapyear then 1 else 0))
               in (yr, mo, n - preceding + 1)
             else (yr, mo, n - preceding + 1))"

text \<open>
  The constructor \<open>date(y, m, d)\<close>.  The interpreter loads the C implementation of
  \<open>datetime\<close>, which first converts the three arguments to the C type \<open>int\<close> and
  raises \<open>OverflowError\<close> for an argument that does not fit; the field checks follow in
  the order of the library and raise \<open>ValueError\<close>.
\<close>

definition c_int :: "int \<Rightarrow> bool" where
  "c_int v = (- 2147483648 \<le> v \<and> v \<le> 2147483647)"

definition date_new :: "int \<Rightarrow> int \<Rightarrow> int \<Rightarrow> error + date" where
  "date_new y m d =
    (if \<not> (c_int y \<and> c_int m \<and> c_int d) then Inl OverflowError
     else if \<not> (MINYEAR \<le> y \<and> y \<le> MAXYEAR) then Inl ValueError
     else if \<not> (1 \<le> m \<and> m \<le> 12) then Inl ValueError
     else if \<not> (1 \<le> d \<and> d \<le> days_in_month y m) then Inl ValueError
     else Inr \<lparr>year = y, month = m, day = d\<rparr>)"

definition toordinal :: "date \<Rightarrow> int" where
  "toordinal d = ymd2ord (year d) (month d) (day d)"

definition fromordinal :: "int \<Rightarrow> error + date" where
  "fromordinal n = (case ord2ymd n of (y, m, d) \<Rightarrow> date_new y m d)"

text \<open>\<open>d.weekday()\<close>: Monday is 0, Sunday is 6.\<close>

definition weekday :: "date \<Rightarrow> int" where
  "weekday d = (toordinal d + 6) mod 7"

text \<open>\<open>d + timedelta(days=k)\<close> and \<open>d - timedelta(days=k)\<close>.\<close>

definition date_add :: "date \<Rightarrow> int \<Rightarrow> error + date" where
  "date_add d k =
    (let ord = toordinal d + k
     in if 0 < ord \<and> ord \<le> MAXORDINAL then fromordinal ord else Inl OverflowError)"

definition date_sub :: "date \<Rightarrow> int \<Rightarrow> error + date" where
  "date_sub d k = date_add d (- k)"

text \<open>\<open>a <= b\<close> on dates compares the triples (year, month, day) lexicographically.\<close>

definition date_le :: "date \<Rightarrow> date \<Rightarrow> bool" where
  "date_le a b =
    (year a < year b \<or> (year a = year b \<and>
      (month a < month b \<or> (month a = month b \<and> day a \<le> day b))))"

section \<open>Date arithmetic of \<open>overlay_symbols.py\<close>\<close>

definition easter_gregorian :: "int \<Rightarrow> error + date" where
  "easter_gregorian y =
    (let a = y mod 19;
         b = y div 100;
         c = y mod 100;
         d = b div 4;
         e = b mod 4;
         f = (b + 8) div 25;
         g = (b - f + 1) div 3;
         h = (19 * a + b - d - g + 15) mod 30;
         i = c div 4;
         k = c mod 4;
         l = (32 + 2 * e + 2 * i - h - k) mod 7;
         m = (a + 11 * h + 22 * l) div 451;
         mo = (h + l - 7 * m + 114) div 31;
         dy = ((h + l - 7 * m + 114) mod 31) + 1
     in date_new y mo dy)"

definition is_sunday :: "date \<Rightarrow> bool" where
  "is_sunday d = (weekday d = 6)"

definition is_friday :: "date \<Rightarrow> bool" where
  "is_friday d = (weekday d = 4)"

definition ash_wednesday :: "int \<Rightarrow> error + date" where
  "ash_wednesday y = and_then (easter_gregorian y) (\<lambda>e. date_sub e 46)"

definition pentecost_sunday :: "int \<Rightarrow> error + date" where
  "pentecost_sunday y = and_then (easter_gregorian y) (\<lambda>e. date_add e 49)"

definition ember_days :: "int \<Rightarrow> error + date set" where
  "ember_days y =
    and_then (date_new y 12 13) (\<lambda>dec13.
    and_then (date_add dec13 ((2 - weekday dec13) mod 7)) (\<lambda>wd.
    and_then (date_add wd 2) (\<lambda>wd_fri.
    and_then (date_add wd 3) (\<lambda>wd_sat.
    and_then (ash_wednesday y) (\<lambda>aw.
    and_then (date_add aw ((6 - weekday aw) mod 7)) (\<lambda>first_lent_sun.
    and_then (date_add first_lent_sun 3) (\<lambda>wed_after.
    and_then (date_add wed_after 2) (\<lambda>wed_after_fri.
    and_then (date_add wed_after 3) (\<lambda>wed_after_sat.
    and_then (pentecost_sunday y) (\<lambda>p.
    and_then (date_add p 3) (\<lambda>wed.
    and_then (date_add wed 2) (\<lambda>wed_fri.
    and_then (date_add wed 3) (\<lambda>wed_sat.
    and_then (date_new y 9 1) (\<lambda>sept1.
    and_then (date_add sept1 ((6 - weekday sept1) mod 7)) (\<lambda>first_sun.
    and_then (date_add first_sun 14) (\<lambda>third_sun.
    and_then (date_add third_sun 3) (\<lambda>swed.
    and_then (date_add swed 2) (\<lambda>swed_fri.
    and_then (date_add swed 3) (\<lambda>swed_sat.
      Inr ({wd, wd_fri, wd_sat} \<union> {wed_after, wed_after_fri, wed_after_sat}
           \<union> {wed, wed_fri, wed_sat} \<union> {swed, swed_fri, swed_sat}))))))))))))))))))))"

definition vigil_days :: "int \<Rightarrow> error + date set" where
  "vigil_days y =
    and_then (easter_gregorian y) (\<lambda>e.
    and_then (pentecost_sunday y) (\<lambda>p.
    and_then (date_new y 12 24) (\<lambda>christmas_vigil.
    and_then (date_new y 8 14) (\<lambda>assumption_vigil.
    and_then (date_new y 10 31) (\<lambda>all_saints_vigil.
    and_then (date_sub p 1) (\<lambda>pentecost_vigil.
    and_then (date_new y 6 28) (\<lambda>peter_paul_vigil.
      Inr {christmas_vigil, assumption_vigil, all_saints_vigil, pentecost_vigil,
           peter_paul_vigil})))))))"

text \<open>
  \<open>penitential_marks(d)\<close> returns the pair (fast, abstinence).  The two flags start
  \<open>False\<close> and the four \<open>if\<close> statements run in the order of the source.
\<close>

definition penitential_marks :: "date \<Rightarrow> error + (bool \<times> bool)" where
  "penitential_marks d =
    (let y = year d in
     and_then (easter_gregorian y) (\<lambda>e.
     and_then (ash_wednesday y) (\<lambda>aw.
     and_then (date_sub e 1) (\<lambda>holy_saturday.
     let in_lent_window = (date_le aw d \<and> date_le d holy_saturday) in
     and_then (ember_days y) (\<lambda>embers.
     and_then (vigil_days y) (\<lambda>vigils.
     let abst = False;
         fast = False;
         abst = (if is_friday d then True else abst);
         (fast, abst) = (if in_lent_window \<and> \<not> is_sunday d then (True, True) else (fast, abst));
         (fast, abst) = (if d \<in> embers \<and> \<not> is_sunday d then (True, True) else (fast, abst));
         (fast, abst) = (if d \<in> vigils \<and> \<not> is_sunday d then (True, True) else (fast, abst))
     in Inr (fast, abst)))))))"

section \<open>Titles\<close>

text \<open>
  A Python \<open>str\<close> is a sequence of Unicode code points; the marker symbols lie outside
  the range of \<open>char\<close>, so a title is a list of code points, each an integer.  \<open>is_space\<close> is the set
  of code points for which \<open>str.isspace()\<close> holds, which is also what \<open>\s\<close> matches in
  a \<open>str\<close> pattern and what \<open>str.strip()\<close> removes.
\<close>

type_synonym pystr = "int list"

definition codepoints :: "string \<Rightarrow> pystr" where
  "codepoints s = map of_char s"

definition SYM_HOLYDAY :: pystr where "SYM_HOLYDAY = [0x271D, 0xFE0F]"
definition SYM_FAST :: pystr where "SYM_FAST = [0x26D4]"
definition SYM_ABST :: pystr where "SYM_ABST = [0x1F41F]"

definition HOLY_DAYS_1962_TITLES :: "pystr set" where
  "HOLY_DAYS_1962_TITLES = codepoints ` {
     ''circumcision of our lord'',
     ''epiphany of our lord'',
     ''the epiphany of our lord'',
     ''st joseph spouse of the blessed virgin mary'',
     ''st joseph'',
     ''st. joseph'',
     ''ascension of our lord'',
     ''the ascension of our lord'',
     ''corpus christi'',
     ''ss peter and paul apostles'',
     ''ss. peter and paul'',
     ''saints peter and paul'',
     ''st. peter and st. paul'',
     ''st peter and st paul'',
     ''assumption of the blessed virgin mary'',
     ''the assumption of the blessed virgin mary'',
     ''assumption'',
     ''all saints'',
     ''all saints day'',
     ''immaculate conception of the blessed virgin mary'',
     ''the immaculate conception'',
     ''immaculate conception'',
     ''nativity of our lord'',
     ''christmas''}"

definition MARK_SUNDAYS_AS_HOLY :: bool where "MARK_SUNDAYS_AS_HOLY = False"

definition is_space :: "int \<Rightarrow> bool" where
  "is_space c =
    ((0x9 \<le> c \<and> c \<le> 0xD) \<or> (0x1C \<le> c \<and> c \<le> 0x20) \<or> c = 0x85 \<or> c = 0xA0
     \<or> c = 0x1680 \<or> (0x2000 \<le> c \<and> c \<le> 0x200A) \<or> c = 0x2028 \<or> c = 0x2029
     \<or> c = 0x202F \<or> c = 0x205F \<or> c = 0x3000)"

text \<open>\<open>s.strip()\<close>, and \<open>s.lstrip(chars)\<close> for a set of characters.\<close>

definition lstrip_chars :: "int set \<Rightarrow> pystr \<Rightarrow> pystr" where
  "lstrip_chars cs s = dropWhile (\<lambda>c. c \<in> cs) s"

definition strip :: "pystr \<Rightarrow> pystr" where
  "strip s = rev (dropWhile is_space (rev (dropWhile is_space s)))"

text \<open>
  \<open>SYM_STRIP_RE\<close> is \<open>^\s*(H|F|A|\s)+\s*\<close> with the three marker symbols \<open>H\<close>,
  \<open>F\<close>, \<open>A\<close>.  \<open>sym_token\<close> is one iteration of the group at the head of a string,
  the alternatives tried in their order; it returns the rest of the string.
  \<open>sym_tokens\<close> is the greedy repetition of the group.
\<close>

definition sym_token :: "pystr \<Rightarrow> pystr option" where
  "sym_token s =
    (if take (length SYM_HOLYDAY) s = SYM_HOLYDAY then Some (drop (length SYM_HOLYDAY) s)
     else if take (length SYM_FAST) s = SYM_FAST then Some (drop (length SYM_FAST) s)
     else if take (length SYM_ABST) s = SYM_ABST then Some (drop (length SYM_ABST) s)
     else (case s of [] \<Rightarrow> None | c # cs \<Rightarrow> if is_space c then Some cs else None))"

fun sym_tokens :: "pystr \<Rightarrow> pystr" where
  "sym_tokens [] = []"
| "sym_tokens [c] = (if c = 0x26D4 \<or> c = 0x1F41F \<or> is_space c then [] else [c])"
| "sym_tokens (c # c' # cs) =
     (if c = 0x271D \<and> c' = 0xFE0F then sym_tokens cs
      else if c = 0x26D4 \<or> c = 0x1F41F \<or> is_space c then sym_tokens (c' # cs)
      else c # c' # cs)"

text \<open>
  \<open>SYM_STRIP_RE.sub("", s)\<close>.  The pattern is anchored at the start, so at most one
  match is replaced, and it is found as the backtracking matcher finds it: the first
  \<open>\s*\<close> takes all leading whitespace; if the group then matches, it is repeated
  greedily and the last \<open>\s*\<close> takes the whitespace that follows; if it does not, the
  matcher gives the last whitespace character back to the group, and the match is the
  leading whitespace; with no leading whitespace there is no match and the string is
  returned as it is.
\<close>

definition SYM_STRIP_RE_sub :: "pystr \<Rightarrow> pystr" where
  "SYM_STRIP_RE_sub s =
    (let s1 = dropWhile is_space s
     in case sym_token s1 of
          Some r \<Rightarrow> dropWhile is_space (sym_tokens r)
        | None \<Rightarrow> (if s1 \<noteq> s then s1 else s))"

text \<open>\<open>re.sub(r"\s+", " ", s)\<close>: every maximal run of whitespace becomes one space.\<close>

function collapse_spaces :: "pystr \<Rightarrow> pystr" where
  "collapse_spaces [] = []"
| "collapse_spaces (c # cs) =
     (if is_space c then 0x20 # collapse_spaces (dropWhile is_space cs)
      else c # collapse_spaces cs)"
  by pat_completeness auto
termination
  by (relation "measure length") (auto simp add: length_dropWhile_le less_Suc_eq_le)

text \<open>
  \<open>str.lower()\<close> follows the Unicode case tables, which are data of the interpreter;
  \<open>normalize_title\<close> takes it as the parameter \<open>lower\<close>.
\<close>

definition normalize_title :: "(pystr \<Rightarrow> pystr) \<Rightarrow> pystr \<Rightarrow> pystr" where
  "normalize_title lower summary =
    (let s = strip summary;
         s = strip (SYM_STRIP_RE_sub s);
         s_for_match = strip (lstrip_chars {0x203A, 0xBB} s);
         s_for_match = lower (collapse_spaces s_for_match)
     in s_for_match)"

definition strip_existing_symbols :: "pystr \<Rightarrow> pystr" where
  "strip_existing_symbols summary =
    (let s = strip summary;
         s = strip (SYM_STRIP_RE_sub s)
     in s)"

definition build_prefix :: "bool \<Rightarrow> bool \<Rightarrow> bool \<Rightarrow> pystr" where
  "build_prefix is_holy is_fast is_abst =
    (let p = [];
         p = (if is_holy then p @ SYM_HOLYDAY else p);
         p = (if is_fast then p @ SYM_FAST else p);
         p = (if is_abst then p @ SYM_ABST else p)
     in p)"

text \<open>
  The body of the loop of \<open>main\<close> for one event: \<open>d\<close> is the date of \<open>DTSTART\<close>,
  \<open>raw\<close> the text of \<open>SUMMARY\<close>.  The result is the triple (holy, fast, abstinence)
  that the prefix is built from, and the new \<open>SUMMARY\<close>.  The switch
  \<open>MARK_SUNDAYS_AS_HOLY\<close> is the first argument; \<open>main_event\<close> is the body under the
  value the switch has in the source.
\<close>

definition overlay_event ::
  "bool \<Rightarrow> (pystr \<Rightarrow> pystr) \<Rightarrow> date \<Rightarrow> pystr \<Rightarrow> error + ((bool \<times> bool \<times> bool) \<times> pystr)" where
  "overlay_event mark_sundays_as_holy lower d raw =
    (let summary = strip raw;
         base = strip_existing_symbols summary;
         match_key = normalize_title lower summary;
         is_holy = (match_key \<in> HOLY_DAYS_1962_TITLES);
         is_holy = (if mark_sundays_as_holy \<and> is_sunday d then True else is_holy)
     in and_then (penitential_marks d) (\<lambda>(fast, abst).
          let (fast, abst) = (if is_holy then (False, False) else (fast, abst));
              prefix = build_prefix is_holy fast abst
          in Inr ((is_holy, fast, abst),
                  if prefix \<noteq> [] then prefix @ [0x20] @ base else base)))"

definition main_event ::
  "(pystr \<Rightarrow> pystr) \<Rightarrow> date \<Rightarrow> pystr \<Rightarrow> error + ((bool \<times> bool \<times> bool) \<times> pystr)" where
  "main_event = overlay_event MARK_SUNDAYS_AS_HOLY"

section \<open>Auxiliary definitions\<close>

text \<open>
  Names for intermediate values of the functions above and for the properties that the
  lemmas and theorems state.  None of them is part of the program.
\<close>

text \<open>
  The values \<open>h\<close> and \<open>l\<close> of \<open>easter_gregorian\<close> and the sum \<open>h + l - 7 * m + 114\<close>
  that its month and day are read from, as functions of the year.
\<close>

definition easter_h :: "int \<Rightarrow> int" where
  "easter_h y = (let a = y mod 19; b = y div 100; d = b div 4; f = (b + 8) div 25;
      g = (b - f + 1) div 3 in (19 * a + b - d - g + 15) mod 30)"

definition easter_l :: "int \<Rightarrow> int" where
  "easter_l y = (let b = y div 100; c = y mod 100; e = b mod 4; i = c div 4; k = c mod 4
     in (32 + 2 * e + 2 * i - easter_h y - k) mod 7)"

definition easter_x :: "int \<Rightarrow> int" where
  "easter_x y = (let h = easter_h y; l = easter_l y; m = (y mod 19 + 11 * h + 22 * l) div 451
     in h + l - 7 * m + 114)"

text \<open>
  The record that \<open>easter_gregorian\<close> hands to the constructor \<open>date\<close>.
\<close>

definition easter_date :: "int \<Rightarrow> date" where
  "easter_date y = \<lparr>year = y, month = easter_x y div 31, day = easter_x y mod 31 + 1\<rparr>"

text \<open>
  The last step of \<open>ord2ymd\<close>: from the estimate \<open>mo\<close> of the month, the day \<open>n\<close>
  of the year (counted from 0) and the leap-year flag to the month and the day.
\<close>

definition month_day_from :: "int \<Rightarrow> int \<Rightarrow> bool \<Rightarrow> int \<times> int" where
  "month_day_from mo n leapyear =
    (let preceding = DAYS_BEFORE_MONTH ! nat mo + (if mo > 2 \<and> leapyear then 1 else 0)
     in if preceding > n then
          let mo' = mo - 1;
              preceding' = preceding - (DAYS_IN_MONTH ! nat mo' + (if mo' = 2 \<and> leapyear then 1 else 0))
          in (mo', n - preceding' + 1)
        else (mo, n - preceding + 1))"

text \<open>
  What that step has to deliver: a month and a day of that month that lie \<open>n\<close> days
  after January 1.
\<close>

definition md_ok :: "int \<Rightarrow> bool \<Rightarrow> int \<times> int \<Rightarrow> bool" where
  "md_ok n lp md = (case md of (m, d) \<Rightarrow>
     1 \<le> m \<and> m \<le> 12 \<and> 1 \<le> d \<and> d \<le> (if m = 2 \<and> lp then 29 else DAYS_IN_MONTH ! nat m)
     \<and> DAYS_BEFORE_MONTH ! nat m + (if m > 2 \<and> lp then 1 else 0) + d = n + 1)"

text \<open>
  The part of \<open>ord2ymd\<close> that follows the four divisions, with their results as
  arguments.
\<close>

definition ord2ymd_tail :: "int \<Rightarrow> int \<Rightarrow> int \<Rightarrow> int \<Rightarrow> int \<Rightarrow> int \<times> int \<times> int" where
  "ord2ymd_tail yr n100 n4 n1 n =
    (if n1 = 4 \<or> n100 = 4 then (yr - 1, 12, 31)
     else
       let leapyear = (n1 = 3 \<and> (n4 \<noteq> 24 \<or> n100 = 3));
           mo = (n + 50) div 32;
           preceding = DAYS_BEFORE_MONTH ! nat mo + (if mo > 2 \<and> leapyear then 1 else 0)
       in if preceding > n then
            let mo = mo - 1;
                preceding = preceding - (DAYS_IN_MONTH ! nat mo + (if mo = 2 \<and> leapyear then 1 else 0))
            in (yr, mo, n - preceding + 1)
          else (yr, mo, n - preceding + 1))"

text \<open>
  A triple (year, month, day) is the date of ordinal \<open>n\<close>: its fields pass the checks
  of the constructor from year 1 on and \<open>ymd2ord\<close> maps it back to \<open>n\<close>.
\<close>

definition ymd_ok :: "int \<Rightarrow> int \<times> int \<times> int \<Rightarrow> bool" where
  "ymd_ok n t = (case t of (y, m, d) \<Rightarrow>
     ymd2ord y m d = n \<and> 1 \<le> y \<and> 1 \<le> m \<and> m \<le> 12 \<and> 1 \<le> d \<and> d \<le> days_in_month y m
     \<and> days_before_year y < n)"

text \<open>
  The dates that exist in Python: the records whose fields pass the checks of the
  constructor \<open>date\<close>.
\<close>

definition valid_date :: "date \<Rightarrow> bool" where
  "valid_date d =
    (MINYEAR \<le> year d \<and> year d \<le> MAXYEAR \<and> 1 \<le> month d \<and> month d \<le> 12
     \<and> 1 \<le> day d \<and> day d \<le> days_in_month (year d) (month d))"

text \<open>
  \<open>year_start y + n\<close> is the ordinal of the \<open>n\<close>-th day of a year \<open>y\<close> for the days
  from March 1 on, counted as in a common year (March 1 is day 60).
\<close>

definition leap_day :: "int \<Rightarrow> int" where
  "leap_day y = (if is_leap y then 1 else 0)"

definition year_start :: "int \<Rightarrow> int" where
  "year_start y = days_before_year y + leap_day y"

text \<open>
  An ember-day cluster: a Wednesday \<open>w\<close> with the Friday and the Saturday that
  \<open>w + timedelta(days=2)\<close> and \<open>w + timedelta(days=3)\<close> yield.
\<close>

definition cluster :: "date \<Rightarrow> date set \<Rightarrow> bool" where
  "cluster w C =
    (\<exists>f s. date_add w 2 = Inr f \<and> date_add w 3 = Inr s \<and> C = {w, f, s}
       \<and> toordinal f = toordinal w + 2 \<and> toordinal s = toordinal w + 3
       \<and> weekday w = 2 \<and> weekday f = 4 \<and> weekday s = 5)"

text \<open>
  A string without leading and trailing whitespace.
\<close>

definition stripped :: "pystr \<Rightarrow> bool" where
  "stripped s = (s = [] \<or> (\<not> is_space (hd s) \<and> \<not> is_space (last s)))"

text \<open>
  The holy flag and the new title of the loop body of \<open>main\<close>, as functions of its
  inputs and of the final flags.
\<close>

definition event_holy :: "bool \<Rightarrow> (pystr \<Rightarrow> pystr) \<Rightarrow> date \<Rightarrow> pystr \<Rightarrow> bool" where
  "event_holy mark_sundays_as_holy lower d raw =
    (normalize_title lower (strip raw) \<in> HOLY_DAYS_1962_TITLES
     \<or> (mark_sundays_as_holy \<and> is_sunday d))"

definition event_title :: "bool \<Rightarrow> bool \<Rightarrow> bool \<Rightarrow> pystr \<Rightarrow> pystr" where
  "event_title h f a raw =
    (if build_prefix h f a \<noteq> []
     then build_prefix h f a @ [0x20] @ strip_existing_symbols (strip raw)
     else strip_existing_symbols (strip raw))"

section \<open>Lemmas\<close>

lemma int_mod_range: "0 < (b::int) \<Longrightarrow> 0 \<le> a mod b \<and> a mod b < b"
  by simp

lemma int_div_mod_split: "(a::int) = b * (a div b) + a mod b"
  by simp

lemma days_in_month_le_31:
  assumes "1 \<le> m" "m \<le> 12"
  shows "days_in_month y m \<le> 31"
proof -
  have "m = 1 \<or> m = 2 \<or> m = 3 \<or> m = 4 \<or> m = 5 \<or> m = 6
    \<or> m = 7 \<or> m = 8 \<or> m = 9 \<or> m = 10 \<or> m = 11 \<or> m = 12" using assms by arith
  then show ?thesis
    by (elim disjE) (simp_all add: days_in_month_def DAYS_IN_MONTH_def)
qed

lemma date_new_valid:
  assumes "MINYEAR \<le> y" "y \<le> MAXYEAR" "1 \<le> m" "m \<le> 12" "1 \<le> d" "d \<le> days_in_month y m"
  shows "date_new y m d = Inr \<lparr>year = y, month = m, day = d\<rparr>"
proof -
  have "d \<le> 31" using assms(6) days_in_month_le_31[OF assms(3,4), of y] by linarith
  then have "c_int y \<and> c_int m \<and> c_int d"
    using assms unfolding c_int_def MINYEAR_def MAXYEAR_def by simp
  then show ?thesis unfolding date_new_def using assms by simp
qed

lemma date_new_raises:
  assumes "\<not> (MINYEAR \<le> y \<and> y \<le> MAXYEAR)"
  shows "\<exists>e. date_new y m d = Inl e"
  unfolding date_new_def using assms by simp

lemma div_pred_step:
  assumes "0 < (c::int)"
  shows "(y - 1) div c + (if y mod c = 0 then 1 else 0) = y div c"
proof -
  define q where "q = y div c"
  define r where "r = y mod c"
  have y: "y = c * q + r" unfolding q_def r_def by (rule int_div_mod_split)
  have r: "0 \<le> r \<and> r < c" unfolding r_def using assms by (rule int_mod_range)
  show ?thesis
  proof (cases "r = 0")
    case True
    have "y - 1 = c * (q - 1) + (c - 1)" using y True by (simp add: algebra_simps)
    then have "(y - 1) div c = q - 1" by (rule int_div_pos_eq) (use assms in simp_all)
    then show ?thesis using True unfolding q_def[symmetric] r_def[symmetric] by simp
  next
    case False
    have "y - 1 = c * q + (r - 1)" using y by simp
    then have "(y - 1) div c = q" by (rule int_div_pos_eq) (use r False in simp_all)
    then show ?thesis using False unfolding q_def[symmetric] r_def[symmetric] by simp
  qed
qed

lemma mod_100_imp_4: "(y::int) mod 100 = 0 \<Longrightarrow> y mod 4 = 0"
proof -
  assume a: "y mod 100 = 0"
  have "(4::int) dvd 100" by simp
  then have "y mod 100 mod 4 = y mod 4" by (rule mod_mod_cancel)
  then show ?thesis unfolding a by simp
qed

lemma mod_400_imp_100: "(y::int) mod 400 = 0 \<Longrightarrow> y mod 100 = 0"
proof -
  assume a: "y mod 400 = 0"
  have "(100::int) dvd 400" by simp
  then have "y mod 400 mod 100 = y mod 100" by (rule mod_mod_cancel)
  then show ?thesis unfolding a by simp
qed

lemma is_leap_indicator:
  "(if is_leap y then 1 else 0 :: int)
     = (if y mod 4 = 0 then 1 else 0) - (if y mod 100 = 0 then 1 else 0)
       + (if y mod 400 = 0 then 1 else 0)"
proof (cases "y mod 400 = 0")
  case True
  then have "y mod 100 = 0" by (rule mod_400_imp_100)
  moreover from this have "y mod 4 = 0" by (rule mod_100_imp_4)
  ultimately show ?thesis using True unfolding is_leap_def by simp
next
  case n400: False
  show ?thesis
  proof (cases "y mod 100 = 0")
    case True
    then have "y mod 4 = 0" by (rule mod_100_imp_4)
    then show ?thesis using True n400 unfolding is_leap_def by simp
  next
    case False
    then show ?thesis using n400 unfolding is_leap_def by simp
  qed
qed

lemma leap_step:
  "days_before_year y + (if is_leap y then 1 else 0)
     = 365 * (y - 1) + y div 4 - y div 100 + y div 400"
proof -
  have 4: "(y - 1) div 4 + (if y mod 4 = 0 then 1 else 0) = y div 4"
    by (rule div_pred_step) simp
  have 100: "(y - 1) div 100 + (if y mod 100 = 0 then 1 else 0) = y div 100"
    by (rule div_pred_step) simp
  have 400: "(y - 1) div 400 + (if y mod 400 = 0 then 1 else 0) = y div 400"
    by (rule div_pred_step) simp
  have "days_before_year y = (y - 1) * 365 + (y - 1) div 4 - (y - 1) div 100 + (y - 1) div 400"
    unfolding days_before_year_def Let_def ..
  then show ?thesis
    unfolding is_leap_indicator using 4 100 400 by linarith
qed

lemma easter_gregorian_x:
  "easter_gregorian y = date_new y (easter_x y div 31) (easter_x y mod 31 + 1)"
  unfolding easter_gregorian_def easter_x_def easter_l_def easter_h_def Let_def ..

lemma easter_x_bounds: "114 \<le> easter_x y \<and> easter_x y \<le> 148"
proof -
  define a where "a = y mod 19"
  define h where "h = easter_h y"
  define l where "l = easter_l y"
  define m where "m = (a + 11 * h + 22 * l) div 451"
  have a: "0 \<le> a \<and> a < 19" unfolding a_def by (rule int_mod_range) simp
  have h: "0 \<le> h \<and> h < 30" unfolding h_def easter_h_def Let_def by (rule int_mod_range) simp
  have l: "0 \<le> l \<and> l < 7" unfolding l_def easter_l_def Let_def by (rule int_mod_range) simp
  have x: "easter_x y = h + l - 7 * m + 114"
    unfolding easter_x_def Let_def h_def l_def m_def a_def ..
  have "a + 11 * h + 22 * l = 451 * m + (a + 11 * h + 22 * l) mod 451"
    unfolding m_def by (rule int_div_mod_split)
  moreover have "0 \<le> (a + 11 * h + 22 * l) mod 451 \<and> (a + 11 * h + 22 * l) mod 451 < 451"
    by (rule int_mod_range) simp
  ultimately have m: "451 * m \<le> a + 11 * h + 22 * l" "a + 11 * h + 22 * l < 451 * m + 451"
    by linarith+
  have m01: "m = 0 \<or> m = 1" using a h l m by linarith
  from a h l m m01 x show ?thesis by linarith
qed

lemma easter_sunday_arith:
  "(days_before_year y + (if is_leap y then 1 else 0) + easter_x y - 33) mod 7 = 0"
proof -
  define b where "b = y div 100"
  define c where "c = y mod 100"
  define d where "d = b div 4"
  define e where "e = b mod 4"
  define i where "i = c div 4"
  define k where "k = c mod 4"
  define h where "h = easter_h y"
  define l where "l = easter_l y"
  define m where "m = (y mod 19 + 11 * h + 22 * l) div 451"
  define q where "q = (32 + 2 * e + 2 * i - h - k) div 7"
  have y: "y = 100 * b + c" unfolding b_def c_def by (rule int_div_mod_split)
  have b: "b = 4 * d + e" unfolding d_def e_def by (rule int_div_mod_split)
  have c: "c = 4 * i + k" unfolding i_def k_def by (rule int_div_mod_split)
  have cb: "0 \<le> c \<and> c < 100" unfolding c_def by (rule int_mod_range) simp
  have eb: "0 \<le> e \<and> e < 4" unfolding e_def by (rule int_mod_range) simp
  have kb: "0 \<le> k \<and> k < 4" unfolding k_def by (rule int_mod_range) simp
  have "l = (32 + 2 * e + 2 * i - h - k) mod 7"
    unfolding l_def easter_l_def Let_def h_def e_def i_def k_def b_def c_def ..
  moreover have "32 + 2 * e + 2 * i - h - k = 7 * q + (32 + 2 * e + 2 * i - h - k) mod 7"
    unfolding q_def by (rule int_div_mod_split)
  ultimately have l: "l = 32 + 2 * e + 2 * i - h - k - 7 * q" by linarith
  have x: "easter_x y = h + l - 7 * m + 114"
    unfolding easter_x_def Let_def h_def l_def m_def ..
  have "y = 4 * (25 * b + i) + k" using y c by arith
  then have y4: "y div 4 = 25 * b + i" by (rule int_div_pos_eq) (use kb in simp_all)
  have y100: "y div 100 = b" unfolding b_def ..
  have "y = 400 * d + (100 * e + c)" using y b by linarith
  then have y400: "y div 400 = d" by (rule int_div_pos_eq) (use cb eb in simp_all)
  have eq: "days_before_year y + (if is_leap y then 1 else 0) + easter_x y - 33
      = 7 * (20871 * d + 5218 * e + 209 * i + 52 * k - 36 - q - m)"
    unfolding leap_step x y4 y100 y400 using y b c l by arith
  show ?thesis unfolding eq by (rule mod_mult_self1_is_0)
qed

lemma easter_month_day:
  "(easter_x y div 31 = 3 \<and> easter_x y mod 31 + 1 = easter_x y - 92 \<and> easter_x y \<le> 123)
   \<or> (easter_x y div 31 = 4 \<and> easter_x y mod 31 + 1 = easter_x y - 123 \<and> 124 \<le> easter_x y)"
proof -
  define x where "x = easter_x y"
  have b: "114 \<le> x \<and> x \<le> 148" unfolding x_def by (rule easter_x_bounds)
  show ?thesis unfolding x_def[symmetric]
  proof (cases "x \<le> 123")
    case True
    have eq: "x = 31 * 3 + (x - 93)" by simp
    have "x div 31 = 3" by (rule int_div_pos_eq[OF eq]) (use b True in simp_all)
    moreover have "x mod 31 = x - 93" by (rule int_mod_pos_eq[OF eq]) (use b True in simp_all)
    ultimately show "(x div 31 = 3 \<and> x mod 31 + 1 = x - 92 \<and> x \<le> 123)
      \<or> (x div 31 = 4 \<and> x mod 31 + 1 = x - 123 \<and> 124 \<le> x)" using True by simp
  next
    case False
    have eq: "x = 31 * 4 + (x - 124)" by simp
    have "x div 31 = 4" by (rule int_div_pos_eq[OF eq]) (use b False in simp_all)
    moreover have "x mod 31 = x - 124" by (rule int_mod_pos_eq[OF eq]) (use b False in simp_all)
    ultimately show "(x div 31 = 3 \<and> x mod 31 + 1 = x - 92 \<and> x \<le> 123)
      \<or> (x div 31 = 4 \<and> x mod 31 + 1 = x - 123 \<and> 124 \<le> x)" using False by simp
  qed
qed

lemma days_in_month_3: "days_in_month y 3 = 31"
  by (simp add: days_in_month_def DAYS_IN_MONTH_def)

lemma days_in_month_4: "days_in_month y 4 = 30"
  by (simp add: days_in_month_def DAYS_IN_MONTH_def)

lemma days_before_month_3: "days_before_month y 3 = 59 + (if is_leap y then 1 else 0)"
  by (simp add: days_before_month_def DAYS_BEFORE_MONTH_def)

lemma days_before_month_4: "days_before_month y 4 = 90 + (if is_leap y then 1 else 0)"
  by (simp add: days_before_month_def DAYS_BEFORE_MONTH_def)

lemma easter_gregorian_fields_valid:
  "1 \<le> easter_x y div 31 \<and> easter_x y div 31 \<le> 12 \<and> 1 \<le> easter_x y mod 31 + 1
   \<and> easter_x y mod 31 + 1 \<le> days_in_month y (easter_x y div 31)"
proof -
  define x where "x = easter_x y"
  have b: "114 \<le> x \<and> x \<le> 148" unfolding x_def by (rule easter_x_bounds)
  from easter_month_day[of y] show ?thesis unfolding x_def[symmetric]
  proof (elim disjE conjE)
    assume "x div 31 = 3" "x mod 31 + 1 = x - 92" "x \<le> 123"
    then show "1 \<le> x div 31 \<and> x div 31 \<le> 12 \<and> 1 \<le> x mod 31 + 1
      \<and> x mod 31 + 1 \<le> days_in_month y (x div 31)"
      using b by (simp add: days_in_month_3)
  next
    assume "x div 31 = 4" "x mod 31 + 1 = x - 123" "124 \<le> x"
    then show "1 \<le> x div 31 \<and> x div 31 \<le> 12 \<and> 1 \<le> x mod 31 + 1
      \<and> x mod 31 + 1 \<le> days_in_month y (x div 31)"
      using b by (simp add: days_in_month_4)
  qed
qed

lemma easter_gregorian_Inr:
  assumes "MINYEAR \<le> y" "y \<le> MAXYEAR"
  shows "easter_gregorian y = Inr (easter_date y)"
  unfolding easter_gregorian_x easter_date_def
  by (rule date_new_valid) (use assms easter_gregorian_fields_valid[of y] in simp_all)

lemma easter_gregorian_raises:
  assumes "\<not> (MINYEAR \<le> y \<and> y \<le> MAXYEAR)"
  shows "\<exists>e. easter_gregorian y = Inl e"
  unfolding easter_gregorian_x using assms by (rule date_new_raises)

lemma toordinal_fields:
  "toordinal \<lparr>year = y, month = m, day = d\<rparr> = days_before_year y + days_before_month y m + d"
  by (simp add: toordinal_def ymd2ord_def)

lemma toordinal_easter_date:
  "toordinal (easter_date y) = days_before_year y + (if is_leap y then 1 else 0) + easter_x y - 33"
proof -
  define x where "x = easter_x y"
  define L :: int where "L = (if is_leap y then 1 else 0)"
  from easter_month_day[of y]
  have "days_before_month y (x div 31) + (x mod 31 + 1) = L + x - 33"
    unfolding x_def[symmetric]
  proof (elim disjE conjE)
    assume "x div 31 = 3" "x mod 31 + 1 = x - 92"
    then show ?thesis unfolding L_def by (simp add: days_before_month_3)
  next
    assume "x div 31 = 4" "x mod 31 + 1 = x - 123"
    then show ?thesis unfolding L_def by (simp add: days_before_month_4)
  qed
  then show ?thesis
    unfolding easter_date_def toordinal_fields x_def[symmetric] L_def[symmetric] by linarith
qed

lemma mod7_shift: "(n::int) mod 7 = 0 \<Longrightarrow> (n + k) mod 7 = k mod 7"
  by (metis add.commute add.right_neutral mod_add_left_eq)

lemma weekday_easter_date: "weekday (easter_date y) = 6"
proof -
  have "toordinal (easter_date y) mod 7 = 0"
    unfolding toordinal_easter_date by (rule easter_sunday_arith)
  then have "(toordinal (easter_date y) + 6) mod 7 = 6 mod 7" by (rule mod7_shift)
  then show ?thesis unfolding weekday_def by simp
qed

lemma md1: "0 \<le> n \<Longrightarrow> n \<le> 13 \<Longrightarrow> md_ok n lp (month_day_from 1 n lp)"
  by (simp add: md_ok_def month_day_from_def DAYS_BEFORE_MONTH_def DAYS_IN_MONTH_def)

lemma md2: "14 \<le> n \<Longrightarrow> n \<le> 45 \<Longrightarrow> md_ok n lp (month_day_from 2 n lp)"
  by (simp add: md_ok_def month_day_from_def DAYS_BEFORE_MONTH_def DAYS_IN_MONTH_def)

lemma md3: "46 \<le> n \<Longrightarrow> n \<le> 77 \<Longrightarrow> md_ok n lp (month_day_from 3 n lp)"
  by (simp add: md_ok_def month_day_from_def DAYS_BEFORE_MONTH_def DAYS_IN_MONTH_def)

lemma md4: "78 \<le> n \<Longrightarrow> n \<le> 109 \<Longrightarrow> md_ok n lp (month_day_from 4 n lp)"
  by (simp add: md_ok_def month_day_from_def DAYS_BEFORE_MONTH_def DAYS_IN_MONTH_def)

lemma md5: "110 \<le> n \<Longrightarrow> n \<le> 141 \<Longrightarrow> md_ok n lp (month_day_from 5 n lp)"
  by (simp add: md_ok_def month_day_from_def DAYS_BEFORE_MONTH_def DAYS_IN_MONTH_def)

lemma md6: "142 \<le> n \<Longrightarrow> n \<le> 173 \<Longrightarrow> md_ok n lp (month_day_from 6 n lp)"
  by (simp add: md_ok_def month_day_from_def DAYS_BEFORE_MONTH_def DAYS_IN_MONTH_def)

lemma md7: "174 \<le> n \<Longrightarrow> n \<le> 205 \<Longrightarrow> md_ok n lp (month_day_from 7 n lp)"
  by (simp add: md_ok_def month_day_from_def DAYS_BEFORE_MONTH_def DAYS_IN_MONTH_def)

lemma md8: "206 \<le> n \<Longrightarrow> n \<le> 237 \<Longrightarrow> md_ok n lp (month_day_from 8 n lp)"
  by (simp add: md_ok_def month_day_from_def DAYS_BEFORE_MONTH_def DAYS_IN_MONTH_def)

lemma md9: "238 \<le> n \<Longrightarrow> n \<le> 269 \<Longrightarrow> md_ok n lp (month_day_from 9 n lp)"
  by (simp add: md_ok_def month_day_from_def DAYS_BEFORE_MONTH_def DAYS_IN_MONTH_def)

lemma md10: "270 \<le> n \<Longrightarrow> n \<le> 301 \<Longrightarrow> md_ok n lp (month_day_from 10 n lp)"
  by (simp add: md_ok_def month_day_from_def DAYS_BEFORE_MONTH_def DAYS_IN_MONTH_def)

lemma md11: "302 \<le> n \<Longrightarrow> n \<le> 333 \<Longrightarrow> md_ok n lp (month_day_from 11 n lp)"
  by (simp add: md_ok_def month_day_from_def DAYS_BEFORE_MONTH_def DAYS_IN_MONTH_def)

lemma md12: "334 \<le> n \<Longrightarrow> n \<le> 364 \<Longrightarrow> md_ok n lp (month_day_from 12 n lp)"
  by (simp add: md_ok_def month_day_from_def DAYS_BEFORE_MONTH_def DAYS_IN_MONTH_def)

lemma month_day_from_ok:
  assumes "0 \<le> n" "n < 365"
  shows "md_ok n lp (month_day_from ((n + 50) div 32) n lp)"
proof -
  define mo where "mo = (n + 50) div 32"
  have eq: "n + 50 = 32 * mo + (n + 50) mod 32" unfolding mo_def by (rule int_div_mod_split)
  have r: "0 \<le> (n + 50) mod 32 \<and> (n + 50) mod 32 < 32" by (rule int_mod_range) simp
  have lo: "32 * mo - 50 \<le> n" and hi: "n \<le> 32 * mo - 19" using eq r by linarith+
  have "1 \<le> mo \<and> mo \<le> 12" using lo hi assms by linarith
  then have "mo = 1 \<or> mo = 2 \<or> mo = 3 \<or> mo = 4 \<or> mo = 5 \<or> mo = 6
    \<or> mo = 7 \<or> mo = 8 \<or> mo = 9 \<or> mo = 10 \<or> mo = 11 \<or> mo = 12" by arith
  then consider "mo = 1" | "mo = 2" | "mo = 3" | "mo = 4" | "mo = 5" | "mo = 6"
    | "mo = 7" | "mo = 8" | "mo = 9" | "mo = 10" | "mo = 11" | "mo = 12" by blast
  then show ?thesis unfolding mo_def[symmetric]
  proof cases
    case 1 then show "md_ok n lp (month_day_from mo n lp)" using md1[of n lp] lo hi assms by simp
  next
    case 2 then show "md_ok n lp (month_day_from mo n lp)" using md2[of n lp] lo hi assms by simp
  next
    case 3 then show "md_ok n lp (month_day_from mo n lp)" using md3[of n lp] lo hi assms by simp
  next
    case 4 then show "md_ok n lp (month_day_from mo n lp)" using md4[of n lp] lo hi assms by simp
  next
    case 5 then show "md_ok n lp (month_day_from mo n lp)" using md5[of n lp] lo hi assms by simp
  next
    case 6 then show "md_ok n lp (month_day_from mo n lp)" using md6[of n lp] lo hi assms by simp
  next
    case 7 then show "md_ok n lp (month_day_from mo n lp)" using md7[of n lp] lo hi assms by simp
  next
    case 8 then show "md_ok n lp (month_day_from mo n lp)" using md8[of n lp] lo hi assms by simp
  next
    case 9 then show "md_ok n lp (month_day_from mo n lp)" using md9[of n lp] lo hi assms by simp
  next
    case 10 then show "md_ok n lp (month_day_from mo n lp)" using md10[of n lp] lo hi assms by simp
  next
    case 11 then show "md_ok n lp (month_day_from mo n lp)" using md11[of n lp] lo hi assms by simp
  next
    case 12 then show "md_ok n lp (month_day_from mo n lp)" using md12[of n lp] lo hi assms by simp
  qed
qed

lemma DI_values: "DI400Y = 146097" "DI100Y = 36524" "DI4Y = 1461"
  by (simp_all add: DI400Y_def DI100Y_def DI4Y_def days_before_year_def)

lemma ord2ymd_tail_month_day:
  "ord2ymd_tail yr n100 n4 n1 n =
    (if n1 = 4 \<or> n100 = 4 then (yr - 1, 12, 31)
     else (case month_day_from ((n + 50) div 32) n (n1 = 3 \<and> (n4 \<noteq> 24 \<or> n100 = 3))
           of (m, d) \<Rightarrow> (yr, m, d)))"
  unfolding ord2ymd_tail_def month_day_from_def Let_def
  by (simp only: if_distrib[of "\<lambda>p. case p of (m, d) \<Rightarrow> (yr, m, d)"] prod.case)

lemma ord2ymd_as_tail:
  "ord2ymd n =
     ord2ymd_tail
       ((n - 1) div 146097 * 400 + 1
         + ((n - 1) mod 146097 div 36524 * 100
            + (n - 1) mod 146097 mod 36524 div 1461 * 4
            + (n - 1) mod 146097 mod 36524 mod 1461 div 365))
       ((n - 1) mod 146097 div 36524)
       ((n - 1) mod 146097 mod 36524 div 1461)
       ((n - 1) mod 146097 mod 36524 mod 1461 div 365)
       ((n - 1) mod 146097 mod 36524 mod 1461 mod 365)"
  unfolding ord2ymd_def ord2ymd_tail_def Let_def DI_values ..

lemma days_before_year_parts:
  fixes a b c d :: int
  assumes "0 \<le> b" "b \<le> 3" "0 \<le> c" "c \<le> 24" "0 \<le> d" "d \<le> 3"
  shows "days_before_year (400 * a + 100 * b + 4 * c + d + 1)
           = 146097 * a + 36524 * b + 1461 * c + 365 * d"
proof -
  define z where "z = 400 * a + 100 * b + 4 * c + d"
  have e4: "z = 4 * (100 * a + 25 * b + c) + d" unfolding z_def by arith
  have z4: "z div 4 = 100 * a + 25 * b + c"
    by (rule int_div_pos_eq[OF e4]) (use assms in simp_all)
  have e100: "z = 100 * (4 * a + b) + (4 * c + d)" unfolding z_def by arith
  have z100: "z div 100 = 4 * a + b"
    by (rule int_div_pos_eq[OF e100]) (use assms in simp_all)
  have e400: "z = 400 * a + (100 * b + 4 * c + d)" unfolding z_def by arith
  have z400: "z div 400 = a"
    by (rule int_div_pos_eq[OF e400]) (use assms in simp_all)
  have "days_before_year (z + 1) = z * 365 + z div 4 - z div 100 + z div 400"
    unfolding days_before_year_def Let_def by simp
  then have "days_before_year (z + 1) = 146097 * a + 36524 * b + 1461 * c + 365 * d"
    unfolding z4 z100 z400 unfolding z_def by arith
  then show ?thesis unfolding z_def .
qed

lemma is_leap_parts:
  fixes a b c d :: int
  assumes "0 \<le> b" "b \<le> 3" "0 \<le> c" "c \<le> 24" "0 \<le> d" "d \<le> 3"
  shows "is_leap (400 * a + 100 * b + 4 * c + d + 1) = (d = 3 \<and> (c \<noteq> 24 \<or> b = 3))"
proof -
  define y where "y = 400 * a + 100 * b + 4 * c + d + 1"
  have m4: "(y mod 4 = 0) = (d = 3)"
  proof (cases "d = 3")
    case True
    have e: "y = 4 * (100 * a + 25 * b + c + 1) + 0" unfolding y_def using True by arith
    have "y mod 4 = 0" by (rule int_mod_pos_eq[OF e]) simp_all
    then show ?thesis using True by simp
  next
    case False
    have e: "y = 4 * (100 * a + 25 * b + c) + (d + 1)" unfolding y_def by arith
    have "y mod 4 = d + 1" by (rule int_mod_pos_eq[OF e]) (use assms False in simp_all)
    then show ?thesis using False assms by simp
  qed
  have m100: "(y mod 100 = 0) = (d = 3 \<and> c = 24)"
  proof (cases "d = 3 \<and> c = 24")
    case True
    have e: "y = 100 * (4 * a + b + 1) + 0" unfolding y_def using True by arith
    have "y mod 100 = 0" by (rule int_mod_pos_eq[OF e]) simp_all
    then show ?thesis using True by simp
  next
    case False
    have e: "y = 100 * (4 * a + b) + (4 * c + d + 1)" unfolding y_def by arith
    have lt: "4 * c + d + 1 < 100" using False assms by arith
    have "y mod 100 = 4 * c + d + 1" by (rule int_mod_pos_eq[OF e]) (use assms lt in simp_all)
    then show ?thesis using False assms by simp
  qed
  have m400: "(y mod 400 = 0) = (d = 3 \<and> c = 24 \<and> b = 3)"
  proof (cases "d = 3 \<and> c = 24 \<and> b = 3")
    case True
    have e: "y = 400 * (a + 1) + 0" unfolding y_def using True by arith
    have "y mod 400 = 0" by (rule int_mod_pos_eq[OF e]) simp_all
    then show ?thesis using True by simp
  next
    case False
    have e: "y = 400 * a + (100 * b + 4 * c + d + 1)" unfolding y_def by arith
    have lt: "100 * b + 4 * c + d + 1 < 400" using False assms by arith
    have "y mod 400 = 100 * b + 4 * c + d + 1" by (rule int_mod_pos_eq[OF e]) (use assms lt in simp_all)
    then show ?thesis using False assms by simp
  qed
  show ?thesis unfolding y_def[symmetric] is_leap_def m4 m100 m400 by blast
qed

lemma ord2ymd_tail_regular:
  fixes a b c d r :: int
  assumes a: "0 \<le> a" and b: "0 \<le> b" "b \<le> 3" and c: "0 \<le> c" "c \<le> 24"
    and d: "0 \<le> d" "d \<le> 3" and r: "0 \<le> r" "r < 365"
  shows "ymd_ok (146097 * a + 36524 * b + 1461 * c + 365 * d + r + 1)
           (ord2ymd_tail (a * 400 + 1 + (b * 100 + c * 4 + d)) b c d r)"
proof -
  define yr where "yr = a * 400 + 1 + (b * 100 + c * 4 + d)"
  define lp where "lp = (d = 3 \<and> (c \<noteq> 24 \<or> b = 3))"
  define md where "md = month_day_from ((r + 50) div 32) r lp"
  have yr: "yr = 400 * a + 100 * b + 4 * c + d + 1" unfolding yr_def by arith
  have dby: "days_before_year yr = 146097 * a + 36524 * b + 1461 * c + 365 * d"
    unfolding yr using b c d by (rule days_before_year_parts)
  have leap: "is_leap yr = lp"
    unfolding yr lp_def using b c d by (rule is_leap_parts)
  have "md_ok r lp md" unfolding md_def using r by (rule month_day_from_ok)
  then have m: "1 \<le> fst md \<and> fst md \<le> 12"
    and dd: "1 \<le> snd md \<and> snd md \<le> days_in_month yr (fst md)"
    and s: "days_before_month yr (fst md) + snd md = r + 1"
    unfolding md_ok_def days_in_month_def days_before_month_def leap
    by (simp_all add: case_prod_beta)
  have "d \<noteq> 4" "b \<noteq> 4" using b d by simp_all
  then have t: "ord2ymd_tail yr b c d r = (yr, fst md, snd md)"
    unfolding ord2ymd_tail_month_day md_def lp_def by (simp add: case_prod_beta)
  have y1: "1 \<le> yr" unfolding yr using a b c d by simp
  show ?thesis
    unfolding yr_def[symmetric] t ymd_ok_def prod.case ymd2ord_def dby
    using m dd s y1 r by simp
qed

lemma ord2ymd_tail_n1_4:
  fixes a b c :: int
  assumes a: "0 \<le> a" and b: "0 \<le> b" "b \<le> 3" and c: "0 \<le> c" "c \<le> 23"
  shows "ymd_ok (146097 * a + 36524 * b + 1461 * c + 365 * 4 + 0 + 1)
           (ord2ymd_tail (a * 400 + 1 + (b * 100 + c * 4 + 4)) b c 4 0)"
proof -
  define yr where "yr = 400 * a + 100 * b + 4 * c + 3 + 1"
  have c24: "c \<le> 24" using c by simp
  have dby: "days_before_year yr = 146097 * a + 36524 * b + 1461 * c + 365 * 3"
    unfolding yr_def by (rule days_before_year_parts) (use b c in simp_all)
  have "is_leap yr = (3 = (3::int) \<and> (c \<noteq> 24 \<or> b = 3))"
    unfolding yr_def by (rule is_leap_parts) (use b c in simp_all)
  then have leap: "is_leap yr" using c by simp
  have t: "ord2ymd_tail (a * 400 + 1 + (b * 100 + c * 4 + 4)) b c 4 0 = (yr, 12, 31)"
    unfolding ord2ymd_tail_def yr_def by simp
  have dim: "days_in_month yr 12 = 31" by (simp add: days_in_month_def DAYS_IN_MONTH_def)
  have dbm: "days_before_month yr 12 = 335"
    using leap by (simp add: days_before_month_def DAYS_BEFORE_MONTH_def)
  have y1: "1 \<le> yr" unfolding yr_def using a b c by simp
  show ?thesis
    unfolding t ymd_ok_def prod.case ymd2ord_def dby dim dbm using y1 by simp
qed

lemma ord2ymd_tail_n100_4:
  fixes a :: int
  assumes a: "0 \<le> a"
  shows "ymd_ok (146097 * a + 36524 * 4 + 1461 * 0 + 365 * 0 + 0 + 1)
           (ord2ymd_tail (a * 400 + 1 + (4 * 100 + 0 * 4 + 0)) 4 0 0 0)"
proof -
  define yr where "yr = 400 * a + 100 * 3 + 4 * 24 + 3 + 1"
  have dby: "days_before_year yr = 146097 * a + 36524 * 3 + 1461 * 24 + 365 * 3"
    unfolding yr_def by (rule days_before_year_parts) simp_all
  have "is_leap yr = (3 = (3::int) \<and> ((24::int) \<noteq> 24 \<or> 3 = (3::int)))"
    unfolding yr_def by (rule is_leap_parts) simp_all
  then have leap: "is_leap yr" by simp
  have t: "ord2ymd_tail (a * 400 + 1 + (4 * 100 + 0 * 4 + 0)) 4 0 0 0 = (yr, 12, 31)"
    unfolding ord2ymd_tail_def yr_def by simp
  have dim: "days_in_month yr 12 = 31" by (simp add: days_in_month_def DAYS_IN_MONTH_def)
  have dbm: "days_before_month yr 12 = 335"
    using leap by (simp add: days_before_month_def DAYS_BEFORE_MONTH_def)
  have y1: "1 \<le> yr" unfolding yr_def using a by simp
  show ?thesis
    unfolding t ymd_ok_def prod.case ymd2ord_def dby dim dbm using y1 by simp
qed

lemma ord2ymd_ok:
  assumes "1 \<le> n"
  shows "ymd_ok n (ord2ymd n)"
proof -
  define a where "a = (n - 1) div 146097"
  define r1 where "r1 = (n - 1) mod 146097"
  define b where "b = r1 div 36524"
  define r2 where "r2 = r1 mod 36524"
  define c where "c = r2 div 1461"
  define r3 where "r3 = r2 mod 1461"
  define d where "d = r3 div 365"
  define r4 where "r4 = r3 mod 365"
  have e1: "n - 1 = 146097 * a + r1" unfolding a_def r1_def by (rule int_div_mod_split)
  have b1: "0 \<le> r1 \<and> r1 < 146097" unfolding r1_def by (rule int_mod_range) simp
  have e2: "r1 = 36524 * b + r2" unfolding b_def r2_def by (rule int_div_mod_split)
  have b2: "0 \<le> r2 \<and> r2 < 36524" unfolding r2_def by (rule int_mod_range) simp
  have e3: "r2 = 1461 * c + r3" unfolding c_def r3_def by (rule int_div_mod_split)
  have b3: "0 \<le> r3 \<and> r3 < 1461" unfolding r3_def by (rule int_mod_range) simp
  have e4: "r3 = 365 * d + r4" unfolding d_def r4_def by (rule int_div_mod_split)
  have b4: "0 \<le> r4 \<and> r4 < 365" unfolding r4_def by (rule int_mod_range) simp
  have a0: "0 \<le> a" using e1 b1 assms by linarith
  have bb: "0 \<le> b \<and> b \<le> 4" using e2 b1 b2 by linarith
  have cb: "0 \<le> c \<and> c \<le> 24" using e3 b2 b3 by linarith
  have db: "0 \<le> d \<and> d \<le> 4" using e4 b3 b4 by linarith
  have n: "n = 146097 * a + 36524 * b + 1461 * c + 365 * d + r4 + 1"
    using e1 e2 e3 e4 by linarith
  have t: "ord2ymd n = ord2ymd_tail (a * 400 + 1 + (b * 100 + c * 4 + d)) b c d r4"
    unfolding a_def b_def c_def d_def r4_def r3_def r2_def r1_def by (rule ord2ymd_as_tail)
  show ?thesis
  proof (cases "b = 4")
    case True
    have "r2 = 0" using True e2 b1 b2 by linarith
    then have "c = 0" "d = 0" "r4 = 0" using e3 e4 b3 b4 cb db by linarith+
    then show ?thesis
      unfolding t unfolding n using True ord2ymd_tail_n100_4[OF a0] by simp
  next
    case nb: False
    then have b3': "0 \<le> b" "b \<le> 3" using bb by linarith+
    show ?thesis
    proof (cases "d = 4")
      case True
      have "r4 = 0" using True e4 b3 b4 \<open>0 \<le> r4 \<and> r4 < 365\<close> by linarith
      moreover have "0 \<le> c" "c \<le> 23" using True e3 e4 b2 b3 cb \<open>0 \<le> r4 \<and> r4 < 365\<close> by linarith+
      ultimately show ?thesis
        unfolding t unfolding n using True ord2ymd_tail_n1_4[OF a0 b3', of c] by simp
    next
      case False
      then have d3: "0 \<le> d" "d \<le> 3" using db by linarith+
      have c': "0 \<le> c" "c \<le> 24" using cb by simp_all
      have r': "0 \<le> r4" "r4 < 365" using \<open>0 \<le> r4 \<and> r4 < 365\<close> by simp_all
      show ?thesis
        unfolding t unfolding n by (rule ord2ymd_tail_regular[OF a0 b3' c' d3 r'])
    qed
  qed
qed

lemma div_gap:
  fixes z w c :: int
  assumes "0 < c" "z \<le> w"
  shows "z div c \<le> w div c"
  using assms by (simp add: zdiv_mono1)

lemma div100_gap:
  fixes z w :: int
  assumes "z < w"
  shows "w div 100 - z div 100 \<le> w - z"
proof -
  have w: "w = 100 * (w div 100) + w mod 100" by (rule int_div_mod_split)
  have z: "z = 100 * (z div 100) + z mod 100" by (rule int_div_mod_split)
  have wr: "0 \<le> w mod 100 \<and> w mod 100 < 100" by (rule int_mod_range) simp
  have zr: "0 \<le> z mod 100 \<and> z mod 100 < 100" by (rule int_mod_range) simp
  show ?thesis using w z wr zr assms by linarith
qed

lemma days_before_year_mono:
  assumes "y \<le> y'"
  shows "days_before_year y + 364 * y' \<le> days_before_year y' + 364 * y"
proof (cases "y = y'")
  case True
  then show ?thesis by simp
next
  case False
  then have lt: "y - 1 < y' - 1" using assms by simp
  have le: "y - 1 \<le> y' - 1" using assms by simp
  define p4 where "p4 = (y - 1) div 4"
  define p100 where "p100 = (y - 1) div 100"
  define p400 where "p400 = (y - 1) div 400"
  define q4 where "q4 = (y' - 1) div 4"
  define q100 where "q100 = (y' - 1) div 100"
  define q400 where "q400 = (y' - 1) div 400"
  have 4: "p4 \<le> q4" unfolding p4_def q4_def by (rule div_gap[OF _ le]) simp
  have 400: "p400 \<le> q400" unfolding p400_def q400_def by (rule div_gap[OF _ le]) simp
  have 100: "q100 - p100 \<le> (y' - 1) - (y - 1)"
    unfolding p100_def q100_def by (rule div100_gap[OF lt])
  have a: "days_before_year y = (y - 1) * 365 + p4 - p100 + p400"
    unfolding days_before_year_def Let_def p4_def p100_def p400_def ..
  have b: "days_before_year y' = (y' - 1) * 365 + q4 - q100 + q400"
    unfolding days_before_year_def Let_def q4_def q100_def q400_def ..
  show ?thesis unfolding a b using 4 400 100 by (simp add: algebra_simps)
qed

lemma days_before_year_1: "days_before_year 1 = 0"
  by (simp add: days_before_year_def)

lemma days_before_year_10000: "days_before_year 10000 = 3652059"
  by (simp add: days_before_year_def)

lemma days_before_year_Suc:
  "days_before_year (y + 1) = days_before_year y + 365 + (if is_leap y then 1 else 0)"
proof -
  define L :: int where "L = (if is_leap y then 1 else 0)"
  define q where "q = y div 4 - y div 100 + y div 400"
  have "days_before_year (y + 1) = y * 365 + y div 4 - y div 100 + y div 400"
    unfolding days_before_year_def Let_def by simp
  then have a: "days_before_year (y + 1) = y * 365 + q" unfolding q_def by simp
  have "days_before_year y + L = 365 * (y - 1) + y div 4 - y div 100 + y div 400"
    unfolding L_def by (rule leap_step)
  then have b: "days_before_year y + L = 365 * (y - 1) + q" unfolding q_def by simp
  show ?thesis unfolding L_def[symmetric] using a b by (simp add: algebra_simps)
qed

lemma fromordinal_ok:
  assumes "1 \<le> n" "n \<le> MAXORDINAL"
  shows "\<exists>d. fromordinal n = Inr d \<and> toordinal d = n \<and> valid_date d"
proof -
  obtain y m dd where t: "ord2ymd n = (y, m, dd)" by (cases "ord2ymd n") auto
  have "ymd_ok n (ord2ymd n)" using assms(1) by (rule ord2ymd_ok)
  then have ord: "ymd2ord y m dd = n" and y1: "1 \<le> y" and m: "1 \<le> m" "m \<le> 12"
    and d: "1 \<le> dd" "dd \<le> days_in_month y m" and lt: "days_before_year y < n"
    unfolding t ymd_ok_def by simp_all
  have y2: "y \<le> 9999"
  proof (rule ccontr)
    assume "\<not> y \<le> 9999"
    then have "10000 \<le> y" by simp
    then have "days_before_year 10000 + 364 * y \<le> days_before_year y + 364 * 10000"
      by (rule days_before_year_mono)
    then have "3652059 \<le> days_before_year y"
      unfolding days_before_year_10000 using \<open>10000 \<le> y\<close> by linarith
    then show False using lt assms(2) unfolding MAXORDINAL_def by linarith
  qed
  have "date_new y m dd = Inr \<lparr>year = y, month = m, day = dd\<rparr>"
    by (rule date_new_valid) (use y1 y2 m d in \<open>simp_all add: MINYEAR_def MAXYEAR_def\<close>)
  then have "fromordinal n = Inr \<lparr>year = y, month = m, day = dd\<rparr>"
    unfolding fromordinal_def t by simp
  moreover have "toordinal \<lparr>year = y, month = m, day = dd\<rparr> = n"
    unfolding toordinal_def using ord by simp
  moreover have "valid_date \<lparr>year = y, month = m, day = dd\<rparr>"
    unfolding valid_date_def using y1 y2 m d by (simp add: MINYEAR_def MAXYEAR_def)
  ultimately show ?thesis by blast
qed

lemma date_add_ok:
  assumes "1 \<le> toordinal d + k" "toordinal d + k \<le> MAXORDINAL"
  shows "\<exists>d'. date_add d k = Inr d' \<and> toordinal d' = toordinal d + k \<and> valid_date d'"
proof -
  have "date_add d k = fromordinal (toordinal d + k)"
    unfolding date_add_def Let_def using assms by simp
  then show ?thesis using fromordinal_ok[OF assms] by simp
qed

lemma date_add_overflow:
  assumes "\<not> (1 \<le> toordinal d + k \<and> toordinal d + k \<le> MAXORDINAL)"
  shows "date_add d k = Inl OverflowError"
  unfolding date_add_def Let_def using assms by auto

lemma weekday_shift:
  assumes "toordinal d' = toordinal d + k"
  shows "weekday d' = (weekday d + k) mod 7"
proof -
  have "((toordinal d + 6) mod 7 + k) mod 7 = ((toordinal d + 6) + k) mod 7"
    by (rule mod_add_left_eq)
  moreover have "(toordinal d + 6) + k = toordinal d + k + 6" by simp
  ultimately show ?thesis unfolding weekday_def assms by simp
qed

lemma and_then_Inr: "and_then (Inr v) f = f v"
  by (simp add: and_then_def)

lemma and_then_Inl: "and_then (Inl e) f = Inl e"
  by (simp add: and_then_def)

lemma leap_day_range: "0 \<le> leap_day y \<and> leap_day y \<le> 1"
  by (simp add: leap_day_def)

lemma year_start_range:
  assumes "MINYEAR \<le> y" "y \<le> MAXYEAR"
  shows "0 \<le> year_start y \<and> year_start y + 365 \<le> MAXORDINAL"
proof -
  have "1 \<le> y" using assms(1) unfolding MINYEAR_def .
  then have "days_before_year 1 + 364 * y \<le> days_before_year y + 364 * 1"
    by (rule days_before_year_mono)
  then have lo: "0 \<le> days_before_year y"
    unfolding days_before_year_1 using \<open>1 \<le> y\<close> by linarith
  have "y + 1 \<le> 10000" using assms(2) unfolding MAXYEAR_def by simp
  then have "days_before_year (y + 1) + 364 * 10000 \<le> days_before_year 10000 + 364 * (y + 1)"
    by (rule days_before_year_mono)
  then have "days_before_year (y + 1) \<le> 3652059"
    unfolding days_before_year_10000 using \<open>y + 1 \<le> 10000\<close> by simp
  then have hi: "days_before_year y + 365 + leap_day y \<le> 3652059"
    unfolding days_before_year_Suc leap_day_def .
  show ?thesis unfolding year_start_def MAXORDINAL_def using lo hi leap_day_range[of y] by linarith
qed

lemma toordinal_easter_year_start:
  "toordinal (easter_date y) = year_start y + easter_x y - 33"
  unfolding toordinal_easter_date year_start_def leap_day_def ..

lemma fixed_date:
  assumes "MINYEAR \<le> y" "y \<le> MAXYEAR"
  shows "date_new y 12 13 = Inr \<lparr>year = y, month = 12, day = 13\<rparr>"
    and "date_new y 9 1 = Inr \<lparr>year = y, month = 9, day = 1\<rparr>"
    and "date_new y 12 24 = Inr \<lparr>year = y, month = 12, day = 24\<rparr>"
    and "date_new y 8 14 = Inr \<lparr>year = y, month = 8, day = 14\<rparr>"
    and "date_new y 10 31 = Inr \<lparr>year = y, month = 10, day = 31\<rparr>"
    and "date_new y 6 28 = Inr \<lparr>year = y, month = 6, day = 28\<rparr>"
  using assms by (simp_all add: date_new_valid days_in_month_def DAYS_IN_MONTH_def)

lemma fixed_date_ordinal:
  shows "toordinal \<lparr>year = y, month = 12, day = 13\<rparr> = year_start y + 347"
    and "toordinal \<lparr>year = y, month = 9, day = 1\<rparr> = year_start y + 244"
    and "toordinal \<lparr>year = y, month = 12, day = 24\<rparr> = year_start y + 358"
    and "toordinal \<lparr>year = y, month = 8, day = 14\<rparr> = year_start y + 226"
    and "toordinal \<lparr>year = y, month = 10, day = 31\<rparr> = year_start y + 304"
    and "toordinal \<lparr>year = y, month = 6, day = 28\<rparr> = year_start y + 179"
  unfolding toordinal_fields year_start_def leap_day_def
  by (simp_all add: days_before_month_def DAYS_BEFORE_MONTH_def)

lemma easter_ordinal_range:
  "year_start y + 81 \<le> toordinal (easter_date y) \<and> toordinal (easter_date y) \<le> year_start y + 115"
  unfolding toordinal_easter_year_start using easter_x_bounds[of y] by linarith

lemma ash_wednesday_ok:
  assumes "MINYEAR \<le> y" "y \<le> MAXYEAR"
  shows "\<exists>aw. ash_wednesday y = Inr aw \<and> date_sub (easter_date y) 46 = Inr aw
          \<and> toordinal aw = toordinal (easter_date y) - 46 \<and> weekday aw = 2 \<and> valid_date aw"
proof -
  have r: "0 \<le> year_start y \<and> year_start y + 365 \<le> MAXORDINAL"
    using assms by (rule year_start_range)
  have e: "easter_gregorian y = Inr (easter_date y)" using assms by (rule easter_gregorian_Inr)
  have "\<exists>d'. date_add (easter_date y) (- 46) = Inr d'
      \<and> toordinal d' = toordinal (easter_date y) + (- 46) \<and> valid_date d'"
    by (rule date_add_ok) (use r easter_ordinal_range[of y] in linarith)+
  then obtain aw where aw: "date_add (easter_date y) (- 46) = Inr aw"
    and o: "toordinal aw = toordinal (easter_date y) + (- 46)" and v: "valid_date aw" by blast
  have "weekday aw = (weekday (easter_date y) + (- 46)) mod 7" using o by (rule weekday_shift)
  then have w: "weekday aw = 2" unfolding weekday_easter_date by simp
  have "ash_wednesday y = Inr aw"
    unfolding ash_wednesday_def e and_then_Inr date_sub_def by (rule aw)
  then show ?thesis using aw o v w unfolding date_sub_def by auto
qed

lemma pentecost_sunday_ok:
  assumes "MINYEAR \<le> y" "y \<le> MAXYEAR"
  shows "\<exists>p. pentecost_sunday y = Inr p \<and> date_add (easter_date y) 49 = Inr p
          \<and> toordinal p = toordinal (easter_date y) + 49 \<and> weekday p = 6 \<and> valid_date p"
proof -
  have r: "0 \<le> year_start y \<and> year_start y + 365 \<le> MAXORDINAL"
    using assms by (rule year_start_range)
  have e: "easter_gregorian y = Inr (easter_date y)" using assms by (rule easter_gregorian_Inr)
  have "\<exists>d'. date_add (easter_date y) 49 = Inr d'
      \<and> toordinal d' = toordinal (easter_date y) + 49 \<and> valid_date d'"
    by (rule date_add_ok) (use r easter_ordinal_range[of y] in linarith)+
  then obtain p where p: "date_add (easter_date y) 49 = Inr p"
    and o: "toordinal p = toordinal (easter_date y) + 49" and v: "valid_date p" by blast
  have "weekday p = (weekday (easter_date y) + 49) mod 7" using o by (rule weekday_shift)
  then have w: "weekday p = 6" unfolding weekday_easter_date by simp
  have "pentecost_sunday y = Inr p"
    unfolding pentecost_sunday_def e and_then_Inr by (rule p)
  then show ?thesis using p o v w by auto
qed

lemma holy_saturday_ok:
  assumes "MINYEAR \<le> y" "y \<le> MAXYEAR"
  shows "\<exists>hs. date_sub (easter_date y) 1 = Inr hs
          \<and> toordinal hs = toordinal (easter_date y) - 1 \<and> weekday hs = 5 \<and> valid_date hs"
proof -
  have r: "0 \<le> year_start y \<and> year_start y + 365 \<le> MAXORDINAL"
    using assms by (rule year_start_range)
  have "\<exists>d'. date_add (easter_date y) (- 1) = Inr d'
      \<and> toordinal d' = toordinal (easter_date y) + (- 1) \<and> valid_date d'"
    by (rule date_add_ok) (use r easter_ordinal_range[of y] in linarith)+
  then obtain hs where hs: "date_add (easter_date y) (- 1) = Inr hs"
    and o: "toordinal hs = toordinal (easter_date y) + (- 1)" and v: "valid_date hs" by blast
  have "weekday hs = (weekday (easter_date y) + (- 1)) mod 7" using o by (rule weekday_shift)
  then have w: "weekday hs = 5" unfolding weekday_easter_date by simp
  show ?thesis using hs o v w unfolding date_sub_def by auto
qed

lemma date_add_in_year:
  assumes y: "MINYEAR \<le> y" "y \<le> MAXYEAR"
    and d: "toordinal d = year_start y + n" and k: "1 \<le> n + k" "n + k \<le> 365"
  shows "\<exists>d'. date_add d k = Inr d' \<and> toordinal d' = year_start y + (n + k)
           \<and> weekday d' = (weekday d + k) mod 7"
proof -
  have r: "0 \<le> year_start y \<and> year_start y + 365 \<le> MAXORDINAL"
    using y by (rule year_start_range)
  have "\<exists>d'. date_add d k = Inr d' \<and> toordinal d' = toordinal d + k \<and> valid_date d'"
    by (rule date_add_ok) (use r d k in linarith)+
  then obtain d' where a: "date_add d k = Inr d'" and o: "toordinal d' = toordinal d + k"
    by blast
  have "weekday d' = (weekday d + k) mod 7" using o by (rule weekday_shift)
  moreover have "toordinal d' = year_start y + (n + k)" using o d by simp
  ultimately show ?thesis using a by blast
qed

lemma weekday_range: "0 \<le> weekday d \<and> weekday d < 7"
  unfolding weekday_def by (rule int_mod_range) simp

lemma next_weekday:
  fixes w t :: int
  assumes "0 \<le> t" "t < 7"
  shows "0 \<le> (t - w) mod 7 \<and> (t - w) mod 7 \<le> 6 \<and> (w + (t - w) mod 7) mod 7 = t"
proof -
  have r: "0 \<le> (t - w) mod 7 \<and> (t - w) mod 7 < 7" by (rule int_mod_range) simp
  have "(w + (t - w) mod 7) mod 7 = (w + (t - w)) mod 7" by (rule mod_add_right_eq)
  also have "\<dots> = t mod 7" by simp
  also have "\<dots> = t" using assms by simp
  finally show ?thesis using r by simp
qed

lemma cluster_in_year:
  assumes y: "MINYEAR \<le> y" "y \<le> MAXYEAR"
    and w: "toordinal w = year_start y + n" "weekday w = 2" and n: "1 \<le> n" "n + 3 \<le> 365"
  shows "\<exists>f s. cluster w {w, f, s} \<and> toordinal f = year_start y + (n + 2)
           \<and> toordinal s = year_start y + (n + 3)
           \<and> date_add w 2 = Inr f \<and> date_add w 3 = Inr s"
proof -
  have "\<exists>d'. date_add w 2 = Inr d' \<and> toordinal d' = year_start y + (n + 2)
           \<and> weekday d' = (weekday w + 2) mod 7"
    by (rule date_add_in_year[OF y w(1)]) (use n in linarith)+
  then obtain f where f: "date_add w 2 = Inr f" "toordinal f = year_start y + (n + 2)"
    "weekday f = (weekday w + 2) mod 7" by blast
  have "\<exists>d'. date_add w 3 = Inr d' \<and> toordinal d' = year_start y + (n + 3)
           \<and> weekday d' = (weekday w + 3) mod 7"
    by (rule date_add_in_year[OF y w(1)]) (use n in linarith)+
  then obtain s where s: "date_add w 3 = Inr s" "toordinal s = year_start y + (n + 3)"
    "weekday s = (weekday w + 3) mod 7" by blast
  have wf: "weekday f = 4" and ws: "weekday s = 5" using f(3) s(3) unfolding w(2) by simp_all
  have "toordinal f = toordinal w + 2" "toordinal s = toordinal w + 3"
    using f(2) s(2) w(1) by simp_all
  then have "cluster w {w, f, s}"
    unfolding cluster_def using f(1) s(1) w(2) wf ws by blast
  then show ?thesis using f s by blast
qed

lemma date_add_twice:
  assumes "toordinal d' = toordinal d + j"
  shows "date_add d' k = date_add d (j + k)"
  unfolding date_add_def Let_def assms by (simp add: add.assoc)

lemma advent_cluster:
  assumes y: "MINYEAR \<le> y" "y \<le> MAXYEAR"
  shows "\<exists>dec13 wd f s n. date_new y 12 13 = Inr dec13
      \<and> date_add dec13 ((2 - weekday dec13) mod 7) = Inr wd
      \<and> toordinal dec13 \<le> toordinal wd \<and> toordinal wd \<le> toordinal dec13 + 6
      \<and> date_add wd 2 = Inr f \<and> date_add wd 3 = Inr s \<and> cluster wd {wd, f, s}
      \<and> toordinal wd = year_start y + n \<and> toordinal f = year_start y + (n + 2)
      \<and> toordinal s = year_start y + (n + 3) \<and> 347 \<le> n \<and> n \<le> 353"
proof -
  define dec13 where "dec13 = \<lparr>year = y, month = 12, day = 13\<rparr>"
  define k where "k = (2 - weekday dec13) mod 7"
  have c: "date_new y 12 13 = Inr dec13" unfolding dec13_def using y by (rule fixed_date)
  have o: "toordinal dec13 = year_start y + 347" unfolding dec13_def by (rule fixed_date_ordinal)
  have k: "0 \<le> k \<and> k \<le> 6 \<and> (weekday dec13 + k) mod 7 = 2"
    unfolding k_def by (rule next_weekday) simp_all
  have "\<exists>d'. date_add dec13 k = Inr d' \<and> toordinal d' = year_start y + (347 + k)
           \<and> weekday d' = (weekday dec13 + k) mod 7"
    by (rule date_add_in_year[OF y o]) (use k in linarith)+
  then obtain wd where wd: "date_add dec13 k = Inr wd" "toordinal wd = year_start y + (347 + k)"
    "weekday wd = (weekday dec13 + k) mod 7" by blast
  have w2: "weekday wd = 2" using wd(3) k by simp
  have "\<exists>f s. cluster wd {wd, f, s} \<and> toordinal f = year_start y + ((347 + k) + 2)
           \<and> toordinal s = year_start y + ((347 + k) + 3)
           \<and> date_add wd 2 = Inr f \<and> date_add wd 3 = Inr s"
    by (rule cluster_in_year[OF y wd(2) w2]) (use k in linarith)+
  then obtain f s where fs: "cluster wd {wd, f, s}" "toordinal f = year_start y + ((347 + k) + 2)"
    "toordinal s = year_start y + ((347 + k) + 3)" "date_add wd 2 = Inr f" "date_add wd 3 = Inr s"
    by blast
  have r: "toordinal dec13 \<le> toordinal wd \<and> toordinal wd \<le> toordinal dec13 + 6"
    using o wd(2) k by linarith
  have n: "347 \<le> 347 + k \<and> 347 + k \<le> 353" using k by linarith
  show ?thesis
    apply (rule exI[of _ dec13], rule exI[of _ wd], rule exI[of _ f], rule exI[of _ s],
           rule exI[of _ "347 + k"])
    using c wd(1,2) r fs n unfolding k_def by simp
qed

lemma september_cluster:
  assumes y: "MINYEAR \<le> y" "y \<le> MAXYEAR"
  shows "\<exists>sept1 first_sun third_sun wed f s n. date_new y 9 1 = Inr sept1
      \<and> date_add sept1 ((6 - weekday sept1) mod 7) = Inr first_sun
      \<and> toordinal sept1 \<le> toordinal first_sun \<and> toordinal first_sun \<le> toordinal sept1 + 6
      \<and> weekday first_sun = 6
      \<and> date_add first_sun 14 = Inr third_sun \<and> toordinal third_sun = toordinal first_sun + 14
      \<and> date_add third_sun 3 = Inr wed \<and> toordinal wed = toordinal third_sun + 3
      \<and> date_add wed 2 = Inr f \<and> date_add wed 3 = Inr s \<and> cluster wed {wed, f, s}
      \<and> toordinal wed = year_start y + n \<and> toordinal f = year_start y + (n + 2)
      \<and> toordinal s = year_start y + (n + 3) \<and> 261 \<le> n \<and> n \<le> 267"
proof -
  define sept1 where "sept1 = \<lparr>year = y, month = 9, day = 1\<rparr>"
  define k where "k = (6 - weekday sept1) mod 7"
  have c: "date_new y 9 1 = Inr sept1" unfolding sept1_def using y by (rule fixed_date)
  have o: "toordinal sept1 = year_start y + 244" unfolding sept1_def by (rule fixed_date_ordinal)
  have k: "0 \<le> k \<and> k \<le> 6 \<and> (weekday sept1 + k) mod 7 = 6"
    unfolding k_def by (rule next_weekday) simp_all
  have "\<exists>d'. date_add sept1 k = Inr d' \<and> toordinal d' = year_start y + (244 + k)
           \<and> weekday d' = (weekday sept1 + k) mod 7"
    by (rule date_add_in_year[OF y o]) (use k in linarith)+
  then obtain fs where fs: "date_add sept1 k = Inr fs" "toordinal fs = year_start y + (244 + k)"
    "weekday fs = (weekday sept1 + k) mod 7" by blast
  have fs6: "weekday fs = 6" using fs(3) k by simp
  have "\<exists>d'. date_add fs 14 = Inr d' \<and> toordinal d' = year_start y + ((244 + k) + 14)
           \<and> weekday d' = (weekday fs + 14) mod 7"
    by (rule date_add_in_year[OF y fs(2)]) (use k in linarith)+
  then obtain ts where ts: "date_add fs 14 = Inr ts"
    "toordinal ts = year_start y + ((244 + k) + 14)" "weekday ts = (weekday fs + 14) mod 7" by blast
  have "\<exists>d'. date_add ts 3 = Inr d' \<and> toordinal d' = year_start y + (((244 + k) + 14) + 3)
           \<and> weekday d' = (weekday ts + 3) mod 7"
    by (rule date_add_in_year[OF y ts(2)]) (use k in linarith)+
  then obtain wed where wed: "date_add ts 3 = Inr wed"
    "toordinal wed = year_start y + (((244 + k) + 14) + 3)"
    "weekday wed = (weekday ts + 3) mod 7" by blast
  have w2: "weekday wed = 2" using wed(3) ts(3) fs6 by simp
  have "\<exists>f s. cluster wed {wed, f, s} \<and> toordinal f = year_start y + ((((244 + k) + 14) + 3) + 2)
           \<and> toordinal s = year_start y + ((((244 + k) + 14) + 3) + 3)
           \<and> date_add wed 2 = Inr f \<and> date_add wed 3 = Inr s"
    by (rule cluster_in_year[OF y wed(2) w2]) (use k in linarith)+
  then obtain f s where c3: "cluster wed {wed, f, s}"
    "toordinal f = year_start y + ((((244 + k) + 14) + 3) + 2)"
    "toordinal s = year_start y + ((((244 + k) + 14) + 3) + 3)"
    "date_add wed 2 = Inr f" "date_add wed 3 = Inr s" by blast
  have r: "toordinal sept1 \<le> toordinal fs \<and> toordinal fs \<le> toordinal sept1 + 6"
    using o fs(2) k by linarith
  have t: "toordinal ts = toordinal fs + 14" "toordinal wed = toordinal ts + 3"
    using fs(2) ts(2) wed(2) by linarith+
  have n: "261 \<le> ((244 + k) + 14) + 3 \<and> ((244 + k) + 14) + 3 \<le> 267" using k by linarith
  show ?thesis
    apply (rule exI[of _ sept1], rule exI[of _ fs], rule exI[of _ ts], rule exI[of _ wed],
           rule exI[of _ f], rule exI[of _ s], rule exI[of _ "((244 + k) + 14) + 3"])
    using c fs(1) r fs6 ts(1) t wed(1) wed(2) c3 n unfolding k_def by simp
qed

lemma lent_cluster:
  assumes y: "MINYEAR \<le> y" "y \<le> MAXYEAR"
  shows "\<exists>aw first_lent_sun wed f s n. ash_wednesday y = Inr aw
      \<and> date_add aw ((6 - weekday aw) mod 7) = Inr first_lent_sun
      \<and> toordinal aw \<le> toordinal first_lent_sun \<and> toordinal first_lent_sun \<le> toordinal aw + 6
      \<and> weekday first_lent_sun = 6
      \<and> date_add first_lent_sun 3 = Inr wed \<and> toordinal wed = toordinal first_lent_sun + 3
      \<and> date_add wed 2 = Inr f \<and> date_add wed 3 = Inr s \<and> cluster wed {wed, f, s}
      \<and> toordinal wed = year_start y + n \<and> toordinal f = year_start y + (n + 2)
      \<and> toordinal s = year_start y + (n + 3) \<and> 42 \<le> n \<and> n \<le> 76"
proof -
  define x where "x = easter_x y"
  have xb: "114 \<le> x \<and> x \<le> 148" unfolding x_def by (rule easter_x_bounds)
  obtain aw where aw: "ash_wednesday y = Inr aw"
    "toordinal aw = toordinal (easter_date y) - 46" "weekday aw = 2"
    using ash_wednesday_ok[OF y] by blast
  have o: "toordinal aw = year_start y + (x - 79)"
    unfolding aw(2) toordinal_easter_year_start x_def by simp
  define k where "k = (6 - weekday aw) mod 7"
  have k: "k = 4" unfolding k_def aw(3) by simp
  have "\<exists>d'. date_add aw k = Inr d' \<and> toordinal d' = year_start y + ((x - 79) + k)
           \<and> weekday d' = (weekday aw + k) mod 7"
    by (rule date_add_in_year[OF y o]) (use k xb in linarith)+
  then obtain fls where fls: "date_add aw k = Inr fls"
    "toordinal fls = year_start y + ((x - 79) + k)" "weekday fls = (weekday aw + k) mod 7" by blast
  have fls6: "weekday fls = 6" using fls(3) unfolding aw(3) k by simp
  have "\<exists>d'. date_add fls 3 = Inr d' \<and> toordinal d' = year_start y + (((x - 79) + k) + 3)
           \<and> weekday d' = (weekday fls + 3) mod 7"
    by (rule date_add_in_year[OF y fls(2)]) (use k xb in linarith)+
  then obtain wed where wed: "date_add fls 3 = Inr wed"
    "toordinal wed = year_start y + (((x - 79) + k) + 3)"
    "weekday wed = (weekday fls + 3) mod 7" by blast
  have w2: "weekday wed = 2" using wed(3) fls6 by simp
  have "\<exists>f s. cluster wed {wed, f, s} \<and> toordinal f = year_start y + ((((x - 79) + k) + 3) + 2)
           \<and> toordinal s = year_start y + ((((x - 79) + k) + 3) + 3)
           \<and> date_add wed 2 = Inr f \<and> date_add wed 3 = Inr s"
    by (rule cluster_in_year[OF y wed(2) w2]) (use k xb in linarith)+
  then obtain f s where c3: "cluster wed {wed, f, s}"
    "toordinal f = year_start y + ((((x - 79) + k) + 3) + 2)"
    "toordinal s = year_start y + ((((x - 79) + k) + 3) + 3)"
    "date_add wed 2 = Inr f" "date_add wed 3 = Inr s" by blast
  have r: "toordinal aw \<le> toordinal fls \<and> toordinal fls \<le> toordinal aw + 6"
    using o fls(2) k by linarith
  have t: "toordinal wed = toordinal fls + 3" using fls(2) wed(2) by linarith
  have n: "42 \<le> ((x - 79) + k) + 3 \<and> ((x - 79) + k) + 3 \<le> 76" using k xb by linarith
  show ?thesis
    apply (rule exI[of _ aw], rule exI[of _ fls], rule exI[of _ wed],
           rule exI[of _ f], rule exI[of _ s], rule exI[of _ "((x - 79) + k) + 3"])
    using aw(1) fls(1) r fls6 wed(1) t c3 wed(2) n unfolding k_def by simp
qed

lemma pentecost_cluster:
  assumes y: "MINYEAR \<le> y" "y \<le> MAXYEAR"
  shows "\<exists>p wed f s n. pentecost_sunday y = Inr p \<and> weekday p = 6
      \<and> toordinal p = toordinal (easter_date y) + 49
      \<and> date_add p 3 = Inr wed \<and> toordinal wed = toordinal p + 3
      \<and> date_add wed 2 = Inr f \<and> date_add wed 3 = Inr s \<and> cluster wed {wed, f, s}
      \<and> toordinal wed = year_start y + n \<and> toordinal f = year_start y + (n + 2)
      \<and> toordinal s = year_start y + (n + 3) \<and> 133 \<le> n \<and> n \<le> 167"
proof -
  define x where "x = easter_x y"
  have xb: "114 \<le> x \<and> x \<le> 148" unfolding x_def by (rule easter_x_bounds)
  obtain p where p: "pentecost_sunday y = Inr p"
    "toordinal p = toordinal (easter_date y) + 49" "weekday p = 6"
    using pentecost_sunday_ok[OF y] by blast
  have o: "toordinal p = year_start y + (x + 16)"
    unfolding p(2) toordinal_easter_year_start x_def by simp
  have "\<exists>d'. date_add p 3 = Inr d' \<and> toordinal d' = year_start y + ((x + 16) + 3)
           \<and> weekday d' = (weekday p + 3) mod 7"
    by (rule date_add_in_year[OF y o]) (use xb in linarith)+
  then obtain wed where wed: "date_add p 3 = Inr wed"
    "toordinal wed = year_start y + ((x + 16) + 3)"
    "weekday wed = (weekday p + 3) mod 7" by blast
  have w2: "weekday wed = 2" using wed(3) p(3) by simp
  have "\<exists>f s. cluster wed {wed, f, s} \<and> toordinal f = year_start y + (((x + 16) + 3) + 2)
           \<and> toordinal s = year_start y + (((x + 16) + 3) + 3)
           \<and> date_add wed 2 = Inr f \<and> date_add wed 3 = Inr s"
    by (rule cluster_in_year[OF y wed(2) w2]) (use xb in linarith)+
  then obtain f s where c3: "cluster wed {wed, f, s}"
    "toordinal f = year_start y + (((x + 16) + 3) + 2)"
    "toordinal s = year_start y + (((x + 16) + 3) + 3)"
    "date_add wed 2 = Inr f" "date_add wed 3 = Inr s" by blast
  have t: "toordinal wed = toordinal p + 3" using o wed(2) by linarith
  have n: "133 \<le> (x + 16) + 3 \<and> (x + 16) + 3 \<le> 167" using xb by linarith
  show ?thesis
    apply (rule exI[of _ p], rule exI[of _ wed],
           rule exI[of _ f], rule exI[of _ s], rule exI[of _ "(x + 16) + 3"])
    using p wed(1) t c3 wed(2) n by simp
qed

lemma distinct_by_ordinal:
  assumes "sorted_wrt (<) (map toordinal ds)"
  shows "distinct ds \<and> card (set ds) = length ds"
proof -
  have "distinct (map toordinal ds)" using assms by (simp add: strict_sorted_iff)
  then have "distinct ds" by (simp add: distinct_map)
  then show ?thesis by (simp add: distinct_card)
qed

lemma ember_days_ok:
  assumes y: "MINYEAR \<le> y" "y \<le> MAXYEAR"
  shows "\<exists>dec13 adv aw first_lent_sun lent p pent sept1 first_sun third_sun sept A L P S.
     date_new y 12 13 = Inr dec13 \<and> date_add dec13 ((2 - weekday dec13) mod 7) = Inr adv
     \<and> toordinal dec13 \<le> toordinal adv \<and> toordinal adv \<le> toordinal dec13 + 6 \<and> cluster adv A
     \<and> ash_wednesday y = Inr aw \<and> date_add aw ((6 - weekday aw) mod 7) = Inr first_lent_sun
     \<and> toordinal aw \<le> toordinal first_lent_sun \<and> toordinal first_lent_sun \<le> toordinal aw + 6
     \<and> weekday first_lent_sun = 6
     \<and> date_add first_lent_sun 3 = Inr lent \<and> cluster lent L
     \<and> pentecost_sunday y = Inr p \<and> date_add p 3 = Inr pent \<and> cluster pent P
     \<and> date_new y 9 1 = Inr sept1 \<and> date_add sept1 ((6 - weekday sept1) mod 7) = Inr first_sun
     \<and> toordinal sept1 \<le> toordinal first_sun \<and> toordinal first_sun \<le> toordinal sept1 + 6
     \<and> weekday first_sun = 6
     \<and> date_add first_sun 14 = Inr third_sun \<and> date_add third_sun 3 = Inr sept \<and> cluster sept S
     \<and> ember_days y = Inr (A \<union> L \<union> P \<union> S) \<and> card (A \<union> L \<union> P \<union> S) = 12"
proof -
  obtain dec13 adv af as na where a: "date_new y 12 13 = Inr dec13"
    "date_add dec13 ((2 - weekday dec13) mod 7) = Inr adv"
    "toordinal dec13 \<le> toordinal adv \<and> toordinal adv \<le> toordinal dec13 + 6"
    "date_add adv 2 = Inr af" "date_add adv 3 = Inr as" "cluster adv {adv, af, as}"
    and ao: "toordinal adv = year_start y + na" "toordinal af = year_start y + (na + 2)"
      "toordinal as = year_start y + (na + 3)" "347 \<le> na" "na \<le> 353"
    using advent_cluster[OF y] by blast
  obtain aw fls lent lf ls nl where l: "ash_wednesday y = Inr aw"
    "date_add aw ((6 - weekday aw) mod 7) = Inr fls"
    "toordinal aw \<le> toordinal fls \<and> toordinal fls \<le> toordinal aw + 6" "weekday fls = 6"
    "date_add fls 3 = Inr lent" "date_add lent 2 = Inr lf" "date_add lent 3 = Inr ls"
    "cluster lent {lent, lf, ls}"
    and lo: "toordinal lent = year_start y + nl" "toordinal lf = year_start y + (nl + 2)"
      "toordinal ls = year_start y + (nl + 3)" "42 \<le> nl" "nl \<le> 76"
    using lent_cluster[OF y] by blast
  obtain p pent pf ps np where p: "pentecost_sunday y = Inr p" "date_add p 3 = Inr pent"
    "date_add pent 2 = Inr pf" "date_add pent 3 = Inr ps" "cluster pent {pent, pf, ps}"
    and po: "toordinal pent = year_start y + np" "toordinal pf = year_start y + (np + 2)"
      "toordinal ps = year_start y + (np + 3)" "133 \<le> np" "np \<le> 167"
    using pentecost_cluster[OF y] by blast
  obtain sept1 fs ts sept sf ss ns where s: "date_new y 9 1 = Inr sept1"
    "date_add sept1 ((6 - weekday sept1) mod 7) = Inr fs"
    "toordinal sept1 \<le> toordinal fs \<and> toordinal fs \<le> toordinal sept1 + 6" "weekday fs = 6"
    "date_add fs 14 = Inr ts" "date_add ts 3 = Inr sept"
    "date_add sept 2 = Inr sf" "date_add sept 3 = Inr ss" "cluster sept {sept, sf, ss}"
    and so: "toordinal sept = year_start y + ns" "toordinal sf = year_start y + (ns + 2)"
      "toordinal ss = year_start y + (ns + 3)" "261 \<le> ns" "ns \<le> 267"
    using september_cluster[OF y] by blast
  have e: "ember_days y = Inr ({adv, af, as} \<union> {lent, lf, ls} \<union> {pent, pf, ps} \<union> {sept, sf, ss})"
    unfolding ember_days_def
    by (simp only: a(1,2,4,5) l(1,2,5,6,7) p(1,2,3,4) s(1,2,5,6,7,8) and_then_Inr)
  have "sorted_wrt (<)
      (map toordinal [lent, lf, ls, pent, pf, ps, sept, sf, ss, adv, af, as])"
    using ao lo po so by simp
  then have "card (set [lent, lf, ls, pent, pf, ps, sept, sf, ss, adv, af, as])
      = length [lent, lf, ls, pent, pf, ps, sept, sf, ss, adv, af, as]"
    using distinct_by_ordinal by blast
  moreover have "set [lent, lf, ls, pent, pf, ps, sept, sf, ss, adv, af, as]
      = {adv, af, as} \<union> {lent, lf, ls} \<union> {pent, pf, ps} \<union> {sept, sf, ss}" by auto
  ultimately have c: "card ({adv, af, as} \<union> {lent, lf, ls} \<union> {pent, pf, ps} \<union> {sept, sf, ss}) = 12"
    by simp
  show ?thesis
    apply (rule exI[of _ dec13], rule exI[of _ adv], rule exI[of _ aw], rule exI[of _ fls],
           rule exI[of _ lent], rule exI[of _ p], rule exI[of _ pent], rule exI[of _ sept1],
           rule exI[of _ fs], rule exI[of _ ts], rule exI[of _ sept],
           rule exI[of _ "{adv, af, as}"], rule exI[of _ "{lent, lf, ls}"],
           rule exI[of _ "{pent, pf, ps}"], rule exI[of _ "{sept, sf, ss}"])
    using a(1,2,3,6) l(1,2,3,4,5,8) p(1,2,5) s(1,2,3,4,5,6,9) e c
    by (simp only: simp_thms)
qed

lemma vigil_days_ok:
  assumes y: "MINYEAR \<le> y" "y \<le> MAXYEAR"
  shows "\<exists>p pv. pentecost_sunday y = Inr p \<and> date_sub p 1 = Inr pv
     \<and> toordinal pv = toordinal p - 1 \<and> weekday pv = 5
     \<and> vigil_days y = Inr {\<lparr>year = y, month = 12, day = 24\<rparr>, \<lparr>year = y, month = 8, day = 14\<rparr>,
          \<lparr>year = y, month = 10, day = 31\<rparr>, pv, \<lparr>year = y, month = 6, day = 28\<rparr>}
     \<and> card {\<lparr>year = y, month = 12, day = 24\<rparr>, \<lparr>year = y, month = 8, day = 14\<rparr>,
          \<lparr>year = y, month = 10, day = 31\<rparr>, pv, \<lparr>year = y, month = 6, day = 28\<rparr>} = 5"
proof -
  define x where "x = easter_x y"
  have xb: "114 \<le> x \<and> x \<le> 148" unfolding x_def by (rule easter_x_bounds)
  have e: "easter_gregorian y = Inr (easter_date y)" using y by (rule easter_gregorian_Inr)
  obtain p where p: "pentecost_sunday y = Inr p"
    "toordinal p = toordinal (easter_date y) + 49" "weekday p = 6"
    using pentecost_sunday_ok[OF y] by blast
  have o: "toordinal p = year_start y + (x + 16)"
    unfolding p(2) toordinal_easter_year_start x_def by simp
  have "\<exists>d'. date_add p (- 1) = Inr d' \<and> toordinal d' = year_start y + ((x + 16) + (- 1))
           \<and> weekday d' = (weekday p + (- 1)) mod 7"
    by (rule date_add_in_year[OF y o]) (use xb in linarith)+
  then obtain pv where pv: "date_add p (- 1) = Inr pv"
    "toordinal pv = year_start y + ((x + 16) + (- 1))"
    "weekday pv = (weekday p + (- 1)) mod 7" by blast
  have s: "date_sub p 1 = Inr pv" unfolding date_sub_def by (rule pv(1))
  have w: "weekday pv = 5" using pv(3) unfolding p(3) by simp
  have t: "toordinal pv = toordinal p - 1" using pv(2) o by linarith
  define dec24 where "dec24 = \<lparr>year = y, month = 12, day = 24\<rparr>"
  define aug14 where "aug14 = \<lparr>year = y, month = 8, day = 14\<rparr>"
  define oct31 where "oct31 = \<lparr>year = y, month = 10, day = 31\<rparr>"
  define jun28 where "jun28 = \<lparr>year = y, month = 6, day = 28\<rparr>"
  have c: "date_new y 12 24 = Inr dec24" "date_new y 8 14 = Inr aug14"
    "date_new y 10 31 = Inr oct31" "date_new y 6 28 = Inr jun28"
    unfolding dec24_def aug14_def oct31_def jun28_def using y by (rule fixed_date)+
  have fo: "toordinal dec24 = year_start y + 358" "toordinal aug14 = year_start y + 226"
    "toordinal oct31 = year_start y + 304" "toordinal jun28 = year_start y + 179"
    unfolding dec24_def aug14_def oct31_def jun28_def by (rule fixed_date_ordinal)+
  have v: "vigil_days y = Inr {dec24, aug14, oct31, pv, jun28}"
    unfolding vigil_days_def by (simp only: e p(1) c s and_then_Inr)
  have "sorted_wrt (<) (map toordinal [pv, jun28, aug14, oct31, dec24])"
    using fo pv(2) xb by simp
  then have "card (set [pv, jun28, aug14, oct31, dec24]) = length [pv, jun28, aug14, oct31, dec24]"
    using distinct_by_ordinal by blast
  moreover have "set [pv, jun28, aug14, oct31, dec24] = {dec24, aug14, oct31, pv, jun28}" by auto
  ultimately have k: "card {dec24, aug14, oct31, pv, jun28} = 5" by simp
  show ?thesis
    apply (rule exI[of _ p], rule exI[of _ pv])
    using p(1) s t w v k unfolding dec24_def aug14_def oct31_def jun28_def
    by (simp only: simp_thms)
qed

lemma penitential_marks_ok:
  assumes y: "MINYEAR \<le> year d" "year d \<le> MAXYEAR"
  shows "\<exists>e aw holy_saturday embers vigils.
     easter_gregorian (year d) = Inr e \<and> ash_wednesday (year d) = Inr aw
     \<and> date_sub e 1 = Inr holy_saturday \<and> ember_days (year d) = Inr embers
     \<and> vigil_days (year d) = Inr vigils
     \<and> penitential_marks d =
         Inr ((date_le aw d \<and> date_le d holy_saturday \<and> \<not> is_sunday d)
                \<or> (d \<in> embers \<and> \<not> is_sunday d) \<or> (d \<in> vigils \<and> \<not> is_sunday d),
              is_friday d \<or> (date_le aw d \<and> date_le d holy_saturday \<and> \<not> is_sunday d)
                \<or> (d \<in> embers \<and> \<not> is_sunday d) \<or> (d \<in> vigils \<and> \<not> is_sunday d))"
proof -
  have e: "easter_gregorian (year d) = Inr (easter_date (year d))"
    using y by (rule easter_gregorian_Inr)
  obtain aw where aw: "ash_wednesday (year d) = Inr aw" using ash_wednesday_ok[OF y] by blast
  obtain hs where hs: "date_sub (easter_date (year d)) 1 = Inr hs"
    using holy_saturday_ok[OF y] by blast
  obtain embers where em: "ember_days (year d) = Inr embers" using ember_days_ok[OF y] by blast
  obtain vigils where vi: "vigil_days (year d) = Inr vigils" using vigil_days_ok[OF y] by blast
  have "penitential_marks d =
         Inr ((date_le aw d \<and> date_le d hs \<and> \<not> is_sunday d)
                \<or> (d \<in> embers \<and> \<not> is_sunday d) \<or> (d \<in> vigils \<and> \<not> is_sunday d),
              is_friday d \<or> (date_le aw d \<and> date_le d hs \<and> \<not> is_sunday d)
                \<or> (d \<in> embers \<and> \<not> is_sunday d) \<or> (d \<in> vigils \<and> \<not> is_sunday d))"
    unfolding penitential_marks_def Let_def e aw hs em vi and_then_Inr by auto
  then show ?thesis using e aw hs em vi by blast
qed

lemma ember_days_raises:
  assumes "\<not> (MINYEAR \<le> y \<and> y \<le> MAXYEAR)"
  shows "\<exists>e. ember_days y = Inl e"
proof -
  obtain e where "date_new y 12 13 = Inl e" using date_new_raises[OF assms] by blast
  then show ?thesis unfolding ember_days_def by (simp add: and_then_Inl)
qed

lemma vigil_days_raises:
  assumes "\<not> (MINYEAR \<le> y \<and> y \<le> MAXYEAR)"
  shows "\<exists>e. vigil_days y = Inl e"
proof -
  obtain e where "easter_gregorian y = Inl e" using easter_gregorian_raises[OF assms] by blast
  then show ?thesis unfolding vigil_days_def by (simp add: and_then_Inl)
qed

lemma is_space_symbols:
  "\<not> is_space 0x271D" "\<not> is_space 0xFE0F" "\<not> is_space 0x26D4" "\<not> is_space 0x1F41F"
  "is_space 0x20"
  by (simp_all add: is_space_def)

lemma dropWhile_no_space: "s = [] \<or> \<not> is_space (hd s) \<Longrightarrow> dropWhile is_space s = s"
  by (cases s) auto

lemma hd_dropWhile_space:
  "dropWhile is_space s = [] \<or> \<not> is_space (hd (dropWhile is_space s))"
  using hd_dropWhile[of is_space s] by blast

lemma rstrip_take:
  "rev (dropWhile P (rev s)) = take (length s - length (takeWhile P (rev s))) s"
proof -
  have "rev s = takeWhile P (rev s) @ dropWhile P (rev s)" by simp
  then have "s = rev (dropWhile P (rev s)) @ rev (takeWhile P (rev s))"
    by (metis rev_append rev_rev_ident)
  then have "take (length (rev (dropWhile P (rev s)))) s = rev (dropWhile P (rev s))"
    by (metis append_eq_conv_conj)
  moreover have "length (rev (dropWhile P (rev s))) = length s - length (takeWhile P (rev s))"
    by (metis length_rev length_append add_diff_cancel_left' takeWhile_dropWhile_id add.commute)
  ultimately show ?thesis by simp
qed

lemma strip_take: "\<exists>n. strip s = take n (dropWhile is_space s)"
  unfolding strip_def using rstrip_take[of is_space "dropWhile is_space s"] by blast

lemma stripped_strip: "stripped (strip s)"
proof (cases "strip s = []")
  case True
  then show ?thesis by (simp add: stripped_def)
next
  case False
  define u where "u = dropWhile is_space s"
  obtain n where n: "strip s = take n u" unfolding u_def using strip_take by blast
  have "u \<noteq> []" using False n by auto
  then have "\<not> is_space (hd u)" unfolding u_def using hd_dropWhile_space[of s] by blast
  moreover have "hd (strip s) = hd u" using False n by (cases u; cases n) auto
  ultimately have h: "\<not> is_space (hd (strip s))" by simp
  have r: "rev (strip s) = dropWhile is_space (rev u)" unfolding strip_def u_def by simp
  have "rev (strip s) \<noteq> []" using False by simp
  then have "\<not> is_space (hd (rev (strip s)))" unfolding r using hd_dropWhile by blast
  then have "\<not> is_space (last (strip s))" using False by (simp add: hd_rev)
  then show ?thesis using h by (simp add: stripped_def)
qed

lemma strip_stripped: "stripped s \<Longrightarrow> strip s = s"
proof (cases "s = []")
  case True
  then show ?thesis by (simp add: strip_def)
next
  case False
  assume "stripped s"
  then have h: "\<not> is_space (hd s)" and l: "\<not> is_space (last s)"
    using False by (simp_all add: stripped_def)
  have a: "dropWhile is_space s = s" using h False by (cases s) auto
  have "\<not> is_space (hd (rev s))" using l False by (simp add: hd_rev)
  then have "dropWhile is_space (rev s) = rev s" using False by (cases "rev s") auto
  then show ?thesis unfolding strip_def a by simp
qed

lemma strip_idem: "strip (strip s) = strip s"
  using stripped_strip by (rule strip_stripped)

lemma sym_token_Nil: "sym_token [] = None"
  by (simp add: sym_token_def SYM_HOLYDAY_def SYM_FAST_def SYM_ABST_def)

lemma sym_token_one:
  "sym_token [c] = (if c = 0x26D4 \<or> c = 0x1F41F \<or> is_space c then Some [] else None)"
  by (simp add: sym_token_def SYM_HOLYDAY_def SYM_FAST_def SYM_ABST_def)

lemma sym_token_two:
  "sym_token (c # c' # cs) =
     (if c = 0x271D \<and> c' = 0xFE0F then Some cs
      else if c = 0x26D4 \<or> c = 0x1F41F \<or> is_space c then Some (c' # cs) else None)"
  by (simp add: sym_token_def SYM_HOLYDAY_def SYM_FAST_def SYM_ABST_def)

text \<open>\<open>sym_tokens\<close> repeats \<open>sym_token\<close> as long as it matches.\<close>

lemma sym_tokens_unfold:
  "sym_tokens s = (case sym_token s of None \<Rightarrow> s | Some r \<Rightarrow> sym_tokens r)"
proof (cases s)
  case Nil
  then show ?thesis by (simp add: sym_token_Nil)
next
  case (Cons c t)
  show ?thesis
  proof (cases t)
    case Nil
    then show ?thesis using Cons by (simp add: sym_token_one)
  next
    case (Cons c' cs)
    then show ?thesis using \<open>s = c # t\<close> by (simp add: sym_token_two)
  qed
qed

lemma sym_token_None_no_space: "sym_token s = None \<Longrightarrow> s = [] \<or> \<not> is_space (hd s)"
proof (cases s)
  case Nil
  then show ?thesis by simp
next
  case (Cons c t)
  assume n: "sym_token s = None"
  show ?thesis using n Cons
    by (cases t) (auto simp add: sym_token_one sym_token_two split: if_splits)
qed

lemma sym_tokens_fixed: "sym_token s = None \<Longrightarrow> sym_tokens s = s"
  by (simp add: sym_tokens_unfold)

lemma sym_token_sym_tokens: "sym_token (sym_tokens s) = None"
proof (induction s rule: sym_tokens.induct)
  case 1
  then show ?case by (simp add: sym_token_Nil)
next
  case (2 c)
  then show ?case by (simp add: sym_token_Nil sym_token_one)
next
  case (3 c c' cs)
  then show ?case by (simp add: sym_token_two)
qed

lemma sym_token_take: "sym_token s = None \<Longrightarrow> sym_token (take n s) = None"
proof (cases s)
  case Nil
  then show ?thesis by (simp add: sym_token_Nil)
next
  case (Cons c t)
  assume a: "sym_token s = None"
  show ?thesis
  proof (cases n)
    case 0
    then show ?thesis by (simp add: sym_token_Nil)
  next
    case (Suc m)
    show ?thesis
    proof (cases t)
      case Nil
      then show ?thesis using a Cons Suc by simp
    next
      case (Cons c' cs)
      show ?thesis
      proof (cases m)
        case 0
        then show ?thesis using a \<open>s = c # t\<close> Cons Suc
          by (auto simp add: sym_token_one sym_token_two split: if_splits)
      next
        case (Suc k)
        then show ?thesis using a \<open>s = c # t\<close> Cons \<open>n = Suc m\<close>
          by (auto simp add: sym_token_two split: if_splits)
      qed
    qed
  qed
qed

lemma sym_token_SYM_STRIP_RE_sub: "sym_token (SYM_STRIP_RE_sub s) = None"
proof (cases "sym_token (dropWhile is_space s)")
  case None
  then show ?thesis unfolding SYM_STRIP_RE_sub_def Let_def by auto
next
  case (Some r)
  have n: "sym_token (sym_tokens r) = None" by (rule sym_token_sym_tokens)
  then have "dropWhile is_space (sym_tokens r) = sym_tokens r"
    using sym_token_None_no_space dropWhile_no_space by blast
  then show ?thesis unfolding SYM_STRIP_RE_sub_def Let_def Some using n by simp
qed

lemma sym_token_strip: "sym_token s = None \<Longrightarrow> sym_token (strip s) = None"
proof -
  assume a: "sym_token s = None"
  then have "dropWhile is_space s = s"
    using sym_token_None_no_space dropWhile_no_space by blast
  moreover obtain n where "strip s = take n (dropWhile is_space s)" using strip_take by blast
  ultimately have "strip s = take n s" by simp
  then show ?thesis using a by (simp add: sym_token_take)
qed

lemma strip_existing_symbols_props:
  "sym_token (strip_existing_symbols s) = None \<and> stripped (strip_existing_symbols s)"
  unfolding strip_existing_symbols_def Let_def
  using sym_token_strip[OF sym_token_SYM_STRIP_RE_sub] stripped_strip by blast

lemma SYM_STRIP_RE_sub_fixed:
  assumes "sym_token s = None"
  shows "SYM_STRIP_RE_sub s = s"
proof -
  have "dropWhile is_space s = s"
    using assms sym_token_None_no_space dropWhile_no_space by blast
  then show ?thesis unfolding SYM_STRIP_RE_sub_def Let_def using assms by simp
qed

lemma strip_existing_symbols_fixed:
  assumes "sym_token s = None" "stripped s"
  shows "strip_existing_symbols s = s"
  unfolding strip_existing_symbols_def Let_def
  using assms by (simp add: strip_stripped SYM_STRIP_RE_sub_fixed)

lemma normalize_title_via_base:
  "normalize_title lower s =
     lower (collapse_spaces (strip (lstrip_chars {0x203A, 0xBB} (strip_existing_symbols s))))"
  unfolding normalize_title_def strip_existing_symbols_def Let_def ..

lemma sym_token_space: "is_space c \<Longrightarrow> sym_token (c # s) = Some s"
proof -
  assume a: "is_space c"
  then have "c \<noteq> 0x271D" using is_space_symbols(1) by auto
  then show ?thesis using a by (cases s) (simp_all add: sym_token_one sym_token_two)
qed

lemma sym_tokens_space: "is_space c \<Longrightarrow> sym_tokens (c # s) = sym_tokens s"
  using sym_tokens_unfold[of "c # s"] by (simp add: sym_token_space)

lemma sym_tokens_dropWhile: "sym_tokens (dropWhile is_space s) = sym_tokens s"
  by (induction s) (simp_all add: sym_tokens_space)

lemma sym_tokens_SYM_HOLYDAY: "sym_tokens (SYM_HOLYDAY @ s) = sym_tokens s"
  by (simp add: SYM_HOLYDAY_def)

lemma sym_tokens_SYM_FAST: "sym_tokens (SYM_FAST @ s) = sym_tokens s"
  using sym_tokens_unfold[of "SYM_FAST @ s"]
  by (cases s) (simp_all add: SYM_FAST_def sym_token_one sym_token_two)

lemma sym_tokens_SYM_ABST: "sym_tokens (SYM_ABST @ s) = sym_tokens s"
  using sym_tokens_unfold[of "SYM_ABST @ s"]
  by (cases s) (simp_all add: SYM_ABST_def sym_token_one sym_token_two)

text \<open>The substitution removes the longest run of marker symbols and whitespace.\<close>

lemma SYM_STRIP_RE_sub_sym_tokens: "SYM_STRIP_RE_sub s = sym_tokens s"
proof (cases "sym_token (dropWhile is_space s)")
  case None
  then have "sym_tokens (dropWhile is_space s) = dropWhile is_space s" by (rule sym_tokens_fixed)
  then have "sym_tokens s = dropWhile is_space s" unfolding sym_tokens_dropWhile .
  then show ?thesis unfolding SYM_STRIP_RE_sub_def Let_def None by auto
next
  case (Some r)
  have "sym_token (sym_tokens r) = None" by (rule sym_token_sym_tokens)
  then have d: "dropWhile is_space (sym_tokens r) = sym_tokens r"
    using sym_token_None_no_space dropWhile_no_space by blast
  have "sym_tokens (dropWhile is_space s) = sym_tokens r"
    using sym_tokens_unfold[of "dropWhile is_space s"] Some by simp
  then have "sym_tokens s = sym_tokens r" unfolding sym_tokens_dropWhile .
  then show ?thesis unfolding SYM_STRIP_RE_sub_def Let_def Some using d by simp
qed

lemma build_prefix_eq:
  "build_prefix h f a =
     (if h then SYM_HOLYDAY else []) @ (if f then SYM_FAST else []) @ (if a then SYM_ABST else [])"
  by (simp add: build_prefix_def)

lemma build_prefix_nonempty: "(build_prefix h f a \<noteq> []) = (h \<or> f \<or> a)"
  by (simp add: build_prefix_def SYM_HOLYDAY_def SYM_FAST_def SYM_ABST_def)

lemma build_prefix_stripped: "stripped (build_prefix h f a)"
  by (cases h; cases f; cases a)
     (simp_all add: build_prefix_def SYM_HOLYDAY_def SYM_FAST_def SYM_ABST_def stripped_def
        is_space_def)

lemma sym_tokens_build_prefix: "sym_tokens (build_prefix h f a @ s) = sym_tokens s"
  unfolding build_prefix_eq
  by (cases h; cases f; cases a)
     (simp_all add: sym_tokens_SYM_HOLYDAY sym_tokens_SYM_FAST sym_tokens_SYM_ABST)

lemma strip_prefixed:
  assumes p: "p \<noteq> []" "stripped p" and b: "stripped base"
  shows "strip (p @ [0x20] @ base) = (if base = [] then p else p @ [0x20] @ base)"
proof (cases "base = []")
  case True
  have h: "\<not> is_space (hd p)" and l: "\<not> is_space (last p)"
    using p by (simp_all add: stripped_def)
  have a: "dropWhile is_space (p @ [0x20]) = p @ [0x20]" using h p(1) by (cases p) auto
  have "\<not> is_space (hd (rev p))" using l p(1) by (simp add: hd_rev)
  then have "dropWhile is_space (rev p) = rev p" using p(1) by (cases "rev p") auto
  then have "strip (p @ [0x20]) = p" unfolding strip_def a by (simp add: is_space_symbols)
  then show ?thesis using True by simp
next
  case False
  have "\<not> is_space (hd p)" using p by (simp add: stripped_def)
  moreover have "\<not> is_space (last base)" using b False by (simp add: stripped_def)
  ultimately have "stripped (p @ [0x20] @ base)"
    using p(1) False by (simp add: stripped_def)
  then show ?thesis using False by (simp add: strip_stripped)
qed

lemma strip_existing_symbols_retitle:
  assumes n: "sym_token base = None" and b: "stripped base"
  shows "strip_existing_symbols
           (strip (if build_prefix h f a \<noteq> [] then build_prefix h f a @ [0x20] @ base else base))
         = base"
proof (cases "build_prefix h f a \<noteq> []")
  case False
  then show ?thesis using n b by (simp add: strip_stripped strip_existing_symbols_fixed)
next
  case True
  define p where "p = build_prefix h f a"
  have sp: "stripped p" unfolding p_def by (rule build_prefix_stripped)
  have pn: "p \<noteq> []" using True unfolding p_def .
  have t0: "sym_tokens base = base" using n by (rule sym_tokens_fixed)
  have t1: "sym_tokens (p @ [0x20] @ base) = base"
    unfolding p_def sym_tokens_build_prefix using t0 by (simp add: sym_tokens_space is_space_symbols)
  have "sym_tokens (p @ []) = sym_tokens []" unfolding p_def by (rule sym_tokens_build_prefix)
  then have t2: "sym_tokens p = []" by simp
  have s: "strip (p @ [0x20] @ base) = (if base = [] then p else p @ [0x20] @ base)"
    using pn sp b by (rule strip_prefixed)
  have "strip_existing_symbols (strip (p @ [0x20] @ base)) = base"
  proof (cases "base = []")
    case True
    have s': "strip (p @ [0x20] @ base) = p" using s True by simp
    have e: "strip [] = []" by (simp add: strip_def)
    show ?thesis
      unfolding s' strip_existing_symbols_def Let_def strip_stripped[OF sp]
        SYM_STRIP_RE_sub_sym_tokens t2 e using True by simp
  next
    case False
    have s': "strip (p @ [0x20] @ base) = p @ [0x20] @ base" using s False by simp
    have st: "stripped (p @ [0x20] @ base)"
      using stripped_strip[of "p @ [0x20] @ base"] unfolding s' .
    show ?thesis
      unfolding s' strip_existing_symbols_def Let_def strip_stripped[OF st]
        SYM_STRIP_RE_sub_sym_tokens t1 by (rule strip_stripped[OF b])
  qed
  then show ?thesis using True unfolding p_def by simp
qed

lemma valid_date_year: "valid_date d \<Longrightarrow> MINYEAR \<le> year d \<and> year d \<le> MAXYEAR"
  by (simp add: valid_date_def)

lemma penitential_marks_total:
  assumes y: "MINYEAR \<le> year d" "year d \<le> MAXYEAR"
  shows "\<exists>fast abst. penitential_marks d = Inr (fast, abst) \<and> (fast \<longrightarrow> abst)
           \<and> (is_friday d \<longrightarrow> abst)"
proof -
  obtain fast abst where "penitential_marks d = Inr (fast, abst)" "fast \<longrightarrow> abst"
    "is_friday d \<longrightarrow> abst"
    using penitential_marks_ok[OF y] by blast
  then show ?thesis by blast
qed

lemma overlay_event_result:
  assumes p: "penitential_marks d = Inr (fast, abst)"
  shows "overlay_event ms lower d raw =
     Inr ((event_holy ms lower d raw,
           \<not> event_holy ms lower d raw \<and> fast,
           \<not> event_holy ms lower d raw \<and> abst),
          event_title (event_holy ms lower d raw) (\<not> event_holy ms lower d raw \<and> fast)
            (\<not> event_holy ms lower d raw \<and> abst) raw)"
  unfolding overlay_event_def Let_def p and_then_Inr event_holy_def event_title_def
  by auto

lemma event_holy_title:
  "event_holy ms lower d (event_title h f a raw) = event_holy ms lower d raw"
proof -
  have b: "sym_token (strip_existing_symbols (strip raw)) = None"
    "stripped (strip_existing_symbols (strip raw))"
    using strip_existing_symbols_props by blast+
  have "strip_existing_symbols (strip (event_title h f a raw)) = strip_existing_symbols (strip raw)"
    unfolding event_title_def using b by (rule strip_existing_symbols_retitle)
  then show ?thesis unfolding event_holy_def normalize_title_via_base by simp
qed

lemma event_title_title:
  "event_title h f a (event_title h' f' a' raw) = event_title h f a raw"
proof -
  have b: "sym_token (strip_existing_symbols (strip raw)) = None"
    "stripped (strip_existing_symbols (strip raw))"
    using strip_existing_symbols_props by blast+
  have "strip_existing_symbols (strip (event_title h' f' a' raw))
      = strip_existing_symbols (strip raw)"
    unfolding event_title_def using b by (rule strip_existing_symbols_retitle)
  then show ?thesis unfolding event_title_def[of h f a] by simp
qed

lemma easter_date_window:
  "date_le \<lparr>year = y, month = 3, day = 22\<rparr> (easter_date y)
   \<and> date_le (easter_date y) \<lparr>year = y, month = 4, day = 25\<rparr>"
proof -
  define x where "x = easter_x y"
  have b: "114 \<le> x \<and> x \<le> 148" unfolding x_def by (rule easter_x_bounds)
  from easter_month_day[of y] show ?thesis
    unfolding easter_date_def x_def[symmetric]
  proof (elim disjE conjE)
    assume "x div 31 = 3" "x mod 31 + 1 = x - 92" "x \<le> 123"
    then show "date_le \<lparr>year = y, month = 3, day = 22\<rparr>
        \<lparr>year = y, month = x div 31, day = x mod 31 + 1\<rparr>
      \<and> date_le \<lparr>year = y, month = x div 31, day = x mod 31 + 1\<rparr>
        \<lparr>year = y, month = 4, day = 25\<rparr>"
      using b by (simp add: date_le_def)
  next
    assume "x div 31 = 4" "x mod 31 + 1 = x - 123" "124 \<le> x"
    then show "date_le \<lparr>year = y, month = 3, day = 22\<rparr>
        \<lparr>year = y, month = x div 31, day = x mod 31 + 1\<rparr>
      \<and> date_le \<lparr>year = y, month = x div 31, day = x mod 31 + 1\<rparr>
        \<lparr>year = y, month = 4, day = 25\<rparr>"
      using b by (simp add: date_le_def)
  qed
qed

lemma easter_date_year: "year (easter_date y) = y"
  by (simp add: easter_date_def)

lemma easter_date_month: "month (easter_date y) = 3 \<or> month (easter_date y) = 4"
  using easter_month_day[of y] by (auto simp add: easter_date_def)

lemma easter_date_day:
  "1 \<le> day (easter_date y) \<and> day (easter_date y) \<le> days_in_month y (month (easter_date y))"
  using easter_gregorian_fields_valid[of y] by (simp add: easter_date_def)

section \<open>Claims about the computus\<close>

text \<open>
  C1.  For every year from 1900 to 2100 inclusive, \<open>easter_gregorian\<close> returns a date
  of that year that lies between March 22 and April 25 inclusive (in the order of
  \<open><=\<close> on dates), and that date is a Sunday: \<open>weekday()\<close> is 6.
\<close>

theorem easter_gregorian_1900_2100:
  "\<forall>y \<in> {1900 .. 2100}. \<exists>d. easter_gregorian y = Inr d \<and> year d = y
     \<and> date_le \<lparr>year = y, month = 3, day = 22\<rparr> d
     \<and> date_le d \<lparr>year = y, month = 4, day = 25\<rparr>
     \<and> weekday d = 6 \<and> is_sunday d"
proof
  fix y :: int
  assume "y \<in> {1900 .. 2100}"
  then have "MINYEAR \<le> y" "y \<le> MAXYEAR" by (simp_all add: MINYEAR_def MAXYEAR_def)
  then have "easter_gregorian y = Inr (easter_date y)" by (rule easter_gregorian_Inr)
  moreover have "is_sunday (easter_date y)"
    unfolding is_sunday_def by (rule weekday_easter_date)
  ultimately show "\<exists>d. easter_gregorian y = Inr d \<and> year d = y
     \<and> date_le \<lparr>year = y, month = 3, day = 22\<rparr> d
     \<and> date_le d \<lparr>year = y, month = 4, day = 25\<rparr>
     \<and> weekday d = 6 \<and> is_sunday d"
    using easter_date_window[of y] easter_date_year[of y] weekday_easter_date[of y] by blast
qed

theorem easter_gregorian_1900_2100_witness:
  "(2024::int) \<in> {1900 .. 2100} \<and> (\<exists>d. easter_gregorian 2024 = Inr d \<and> year d = 2024
     \<and> date_le \<lparr>year = 2024, month = 3, day = 22\<rparr> d
     \<and> date_le d \<lparr>year = 2024, month = 4, day = 25\<rparr>
     \<and> weekday d = 6 \<and> is_sunday d)"
proof -
  have h: "(2024::int) \<in> {1900 .. 2100}" by simp
  show ?thesis using h easter_gregorian_1900_2100 [THEN bspec, OF h] by blast
qed

text \<open>
  C7, as the code has it.  For every year from 1 to 9999, the years of the \<open>date\<close>
  type, \<open>easter_gregorian\<close> returns a valid calendar date.  For every integer year the
  computed month is 3 or 4 and the computed day lies within the range of that month, so
  for the years 1 to 9999 no check of the constructor fails.  The constructor rejects
  the year 10000, a positive integer, with \<open>ValueError\<close>.
\<close>

theorem easter_gregorian_valid_date:
  "(MINYEAR \<le> y \<and> y \<le> MAXYEAR \<longrightarrow>
      (\<exists>d. easter_gregorian y = Inr d \<and> d = easter_date y \<and> valid_date d))
   \<and> easter_gregorian y = date_new y (month (easter_date y)) (day (easter_date y))
   \<and> year (easter_date y) = y
   \<and> (month (easter_date y) = 3 \<or> month (easter_date y) = 4)
   \<and> 1 \<le> day (easter_date y)
   \<and> day (easter_date y) \<le> days_in_month y (month (easter_date y))"
proof -
  have m: "month (easter_date y) = 3 \<or> month (easter_date y) = 4" by (rule easter_date_month)
  have d: "1 \<le> day (easter_date y) \<and> day (easter_date y) \<le> days_in_month y (month (easter_date y))"
    by (rule easter_date_day)
  have "MINYEAR \<le> y \<and> y \<le> MAXYEAR \<longrightarrow>
      (\<exists>d. easter_gregorian y = Inr d \<and> d = easter_date y \<and> valid_date d)"
  proof
    assume r: "MINYEAR \<le> y \<and> y \<le> MAXYEAR"
    then have "easter_gregorian y = Inr (easter_date y)" using easter_gregorian_Inr by blast
    moreover have "valid_date (easter_date y)"
      unfolding valid_date_def easter_date_year using r m d by auto
    ultimately show "\<exists>d. easter_gregorian y = Inr d \<and> d = easter_date y \<and> valid_date d"
      by blast
  qed
  moreover have "easter_gregorian y = date_new y (month (easter_date y)) (day (easter_date y))"
    unfolding easter_gregorian_x easter_date_def by simp
  ultimately show ?thesis
    using easter_date_year[of y] m d by blast
qed

theorem easter_gregorian_valid_date_witness:
  "MINYEAR \<le> 2024 \<and> 2024 \<le> MAXYEAR
   \<and> easter_gregorian 2024 = Inr \<lparr>year = 2024, month = 3, day = 31\<rparr>
   \<and> valid_date \<lparr>year = 2024, month = 3, day = 31\<rparr>
   \<and> days_in_month 2024 3 = 31"
proof -
  have e: "easter_date 2024 = \<lparr>year = 2024, month = 3, day = 31\<rparr>" by code_simp
  have r: "MINYEAR \<le> (2024::int) \<and> 2024 \<le> MAXYEAR" by (simp add: MINYEAR_def MAXYEAR_def)
  have d: "days_in_month 2024 3 = 31" by (rule days_in_month_3)
  show ?thesis using easter_gregorian_valid_date [of 2024] r e d by auto
qed

theorem easter_gregorian_10000_raises:
  "easter_gregorian 10000 = Inl ValueError"
  by code_simp

text \<open>
  C2, as the code has it.  For every year \<open>y\<close> from 1 to 9999, the years of the
  \<open>date\<close> type, \<open>ash_wednesday(y)\<close> is \<open>easter_gregorian(y)\<close> minus 46 days and
  \<open>pentecost_sunday(y)\<close> is \<open>easter_gregorian(y)\<close> plus 49 days: the dates exist and
  their ordinals differ by exactly 46 and 49.  The bound \<open>holy_saturday\<close> of the
  classifier is Easter minus 1 day: for every date \<open>d\<close> of the year \<open>y\<close>,
  \<open>penitential_marks(d)\<close> tests its Lenten window against Ash Wednesday and against the
  date whose ordinal is that of Easter minus 1.  For 2024 Easter is March 31 and Ash
  Wednesday is February 14.  For the year 10000 there is no Easter date: all three
  functions raise \<open>ValueError\<close>.
\<close>

theorem computus_offsets:
  assumes "MINYEAR \<le> y" "y \<le> MAXYEAR"
  shows "(\<exists>e aw p hs embers vigils.
            easter_gregorian y = Inr e \<and> ash_wednesday y = Inr aw \<and> pentecost_sunday y = Inr p
            \<and> date_sub e 46 = Inr aw \<and> date_add e 49 = Inr p \<and> date_sub e 1 = Inr hs
            \<and> toordinal aw = toordinal e - 46 \<and> toordinal p = toordinal e + 49
            \<and> toordinal hs = toordinal e - 1
            \<and> ember_days y = Inr embers \<and> vigil_days y = Inr vigils
            \<and> (\<forall>d. year d = y \<longrightarrow>
                 penitential_marks d =
                   Inr ((date_le aw d \<and> date_le d hs \<and> \<not> is_sunday d)
                          \<or> (d \<in> embers \<and> \<not> is_sunday d) \<or> (d \<in> vigils \<and> \<not> is_sunday d),
                        is_friday d \<or> (date_le aw d \<and> date_le d hs \<and> \<not> is_sunday d)
                          \<or> (d \<in> embers \<and> \<not> is_sunday d) \<or> (d \<in> vigils \<and> \<not> is_sunday d))))
         \<and> easter_gregorian 2024 = Inr \<lparr>year = 2024, month = 3, day = 31\<rparr>
         \<and> ash_wednesday 2024 = Inr \<lparr>year = 2024, month = 2, day = 14\<rparr>"
proof -
  note y = assms
  have e2024: "easter_gregorian 2024 = Inr \<lparr>year = 2024, month = 3, day = 31\<rparr>"
    by code_simp
  have a2024: "ash_wednesday 2024 = Inr \<lparr>year = 2024, month = 2, day = 14\<rparr>"
    by code_simp
  have e: "easter_gregorian y = Inr (easter_date y)" using y by (rule easter_gregorian_Inr)
  obtain aw where aw: "ash_wednesday y = Inr aw" "date_sub (easter_date y) 46 = Inr aw"
    "toordinal aw = toordinal (easter_date y) - 46"
    using ash_wednesday_ok[OF y] by blast
  obtain p where p: "pentecost_sunday y = Inr p" "date_add (easter_date y) 49 = Inr p"
    "toordinal p = toordinal (easter_date y) + 49"
    using pentecost_sunday_ok[OF y] by blast
  obtain hs where hs: "date_sub (easter_date y) 1 = Inr hs"
    "toordinal hs = toordinal (easter_date y) - 1"
    using holy_saturday_ok[OF y] by blast
  obtain embers where em: "ember_days y = Inr embers" using ember_days_ok[OF y] by blast
  obtain vigils where vi: "vigil_days y = Inr vigils" using vigil_days_ok[OF y] by blast
  have pm: "\<forall>d. year d = y \<longrightarrow>
      penitential_marks d =
        Inr ((date_le aw d \<and> date_le d hs \<and> \<not> is_sunday d)
               \<or> (d \<in> embers \<and> \<not> is_sunday d) \<or> (d \<in> vigils \<and> \<not> is_sunday d),
             is_friday d \<or> (date_le aw d \<and> date_le d hs \<and> \<not> is_sunday d)
               \<or> (d \<in> embers \<and> \<not> is_sunday d) \<or> (d \<in> vigils \<and> \<not> is_sunday d))"
  proof (intro allI impI)
    fix d :: date
    assume d: "year d = y"
    show "penitential_marks d =
        Inr ((date_le aw d \<and> date_le d hs \<and> \<not> is_sunday d)
               \<or> (d \<in> embers \<and> \<not> is_sunday d) \<or> (d \<in> vigils \<and> \<not> is_sunday d),
             is_friday d \<or> (date_le aw d \<and> date_le d hs \<and> \<not> is_sunday d)
               \<or> (d \<in> embers \<and> \<not> is_sunday d) \<or> (d \<in> vigils \<and> \<not> is_sunday d))"
      unfolding penitential_marks_def Let_def d e aw(1) hs(1) em vi and_then_Inr by auto
  qed
  have "\<exists>e aw p hs embers vigils.
            easter_gregorian y = Inr e \<and> ash_wednesday y = Inr aw \<and> pentecost_sunday y = Inr p
            \<and> date_sub e 46 = Inr aw \<and> date_add e 49 = Inr p \<and> date_sub e 1 = Inr hs
            \<and> toordinal aw = toordinal e - 46 \<and> toordinal p = toordinal e + 49
            \<and> toordinal hs = toordinal e - 1
            \<and> ember_days y = Inr embers \<and> vigil_days y = Inr vigils
            \<and> (\<forall>d. year d = y \<longrightarrow>
                 penitential_marks d =
                   Inr ((date_le aw d \<and> date_le d hs \<and> \<not> is_sunday d)
                          \<or> (d \<in> embers \<and> \<not> is_sunday d) \<or> (d \<in> vigils \<and> \<not> is_sunday d),
                        is_friday d \<or> (date_le aw d \<and> date_le d hs \<and> \<not> is_sunday d)
                          \<or> (d \<in> embers \<and> \<not> is_sunday d) \<or> (d \<in> vigils \<and> \<not> is_sunday d)))"
    apply (rule exI[of _ "easter_date y"], rule exI[of _ aw], rule exI[of _ p],
           rule exI[of _ hs], rule exI[of _ embers], rule exI[of _ vigils])
    using e aw p hs em vi pm by (simp only: simp_thms)
  then show ?thesis using e2024 a2024 by (simp only: simp_thms)
qed

theorem computus_offsets_witness:
  "MINYEAR \<le> 2024 \<and> 2024 \<le> MAXYEAR
   \<and> year \<lparr>year = 2024, month = 3, day = 30\<rparr> = 2024
   \<and> date_sub \<lparr>year = 2024, month = 3, day = 31\<rparr> 1 = Inr \<lparr>year = 2024, month = 3, day = 30\<rparr>
   \<and> penitential_marks \<lparr>year = 2024, month = 3, day = 30\<rparr> = Inr (True, True)
   \<and> (\<exists>aw p hs. ash_wednesday 2024 = Inr aw \<and> pentecost_sunday 2024 = Inr p
        \<and> date_sub \<lparr>year = 2024, month = 3, day = 31\<rparr> 1 = Inr hs
        \<and> toordinal aw = toordinal \<lparr>year = 2024, month = 3, day = 31\<rparr> - 46
        \<and> toordinal p = toordinal \<lparr>year = 2024, month = 3, day = 31\<rparr> + 49
        \<and> toordinal hs = toordinal \<lparr>year = 2024, month = 3, day = 31\<rparr> - 1
        \<and> (\<exists>lent. penitential_marks \<lparr>year = 2024, month = 3, day = 30\<rparr> = Inr (lent, lent)
              \<and> (date_le aw \<lparr>year = 2024, month = 3, day = 30\<rparr>
                    \<and> date_le \<lparr>year = 2024, month = 3, day = 30\<rparr> hs
                    \<and> \<not> is_sunday \<lparr>year = 2024, month = 3, day = 30\<rparr> \<longrightarrow> lent)))"
proof -
  have a: "MINYEAR \<le> 2024" and b: "2024 \<le> MAXYEAR" by (simp_all add: MINYEAR_def MAXYEAR_def)
  have s: "date_sub \<lparr>year = 2024, month = 3, day = 31\<rparr> 1
      = Inr \<lparr>year = 2024, month = 3, day = 30\<rparr>" by code_simp
  have pm: "penitential_marks \<lparr>year = 2024, month = 3, day = 30\<rparr> = Inr (True, True)"
    by code_simp
  from computus_offsets [OF a b]
  obtain e aw p hs embers vigils where f: "easter_gregorian 2024 = Inr e"
    "ash_wednesday 2024 = Inr aw" "pentecost_sunday 2024 = Inr p" "date_sub e 1 = Inr hs"
    "toordinal aw = toordinal e - 46" "toordinal p = toordinal e + 49"
    "toordinal hs = toordinal e - 1"
    and q: "\<forall>d. year d = 2024 \<longrightarrow>
                 penitential_marks d =
                   Inr ((date_le aw d \<and> date_le d hs \<and> \<not> is_sunday d)
                          \<or> (d \<in> embers \<and> \<not> is_sunday d) \<or> (d \<in> vigils \<and> \<not> is_sunday d),
                        is_friday d \<or> (date_le aw d \<and> date_le d hs \<and> \<not> is_sunday d)
                          \<or> (d \<in> embers \<and> \<not> is_sunday d) \<or> (d \<in> vigils \<and> \<not> is_sunday d))"
    and e2024: "easter_gregorian 2024 = Inr \<lparr>year = 2024, month = 3, day = 31\<rparr>"
    by blast
  have e: "e = \<lparr>year = 2024, month = 3, day = 31\<rparr>" using f(1) e2024 by simp
  have "penitential_marks \<lparr>year = 2024, month = 3, day = 30\<rparr> =
      Inr ((date_le aw \<lparr>year = 2024, month = 3, day = 30\<rparr>
              \<and> date_le \<lparr>year = 2024, month = 3, day = 30\<rparr> hs
              \<and> \<not> is_sunday \<lparr>year = 2024, month = 3, day = 30\<rparr>)
            \<or> (\<lparr>year = 2024, month = 3, day = 30\<rparr> \<in> embers
                 \<and> \<not> is_sunday \<lparr>year = 2024, month = 3, day = 30\<rparr>)
            \<or> (\<lparr>year = 2024, month = 3, day = 30\<rparr> \<in> vigils
                 \<and> \<not> is_sunday \<lparr>year = 2024, month = 3, day = 30\<rparr>),
           is_friday \<lparr>year = 2024, month = 3, day = 30\<rparr>
            \<or> (date_le aw \<lparr>year = 2024, month = 3, day = 30\<rparr>
              \<and> date_le \<lparr>year = 2024, month = 3, day = 30\<rparr> hs
              \<and> \<not> is_sunday \<lparr>year = 2024, month = 3, day = 30\<rparr>)
            \<or> (\<lparr>year = 2024, month = 3, day = 30\<rparr> \<in> embers
                 \<and> \<not> is_sunday \<lparr>year = 2024, month = 3, day = 30\<rparr>)
            \<or> (\<lparr>year = 2024, month = 3, day = 30\<rparr> \<in> vigils
                 \<and> \<not> is_sunday \<lparr>year = 2024, month = 3, day = 30\<rparr>))"
    using q by simp
  then have l: "\<exists>lent. penitential_marks \<lparr>year = 2024, month = 3, day = 30\<rparr> = Inr (lent, lent)
              \<and> (date_le aw \<lparr>year = 2024, month = 3, day = 30\<rparr>
                    \<and> date_le \<lparr>year = 2024, month = 3, day = 30\<rparr> hs
                    \<and> \<not> is_sunday \<lparr>year = 2024, month = 3, day = 30\<rparr> \<longrightarrow> lent)"
    unfolding pm by auto
  show ?thesis using a b s pm f(2-7) l unfolding e by auto
qed

theorem computus_offsets_10000_raises:
  "easter_gregorian 10000 = Inl ValueError \<and> ash_wednesday 10000 = Inl ValueError
   \<and> pentecost_sunday 10000 = Inl ValueError"
  by code_simp

section \<open>Claims about the ember days and the vigils\<close>

text \<open>
  C5, as the code has it.  For every year \<open>y\<close> from 1 to 9999, the years of the
  \<open>date\<close> type, \<open>ember_days(y)\<close> is the union of four clusters, each a Wednesday with
  the Friday and the Saturday 2 and 3 days after it (\<open>cluster\<close>): the Advent cluster
  starts at the first Wednesday on or after December 13; the Lenten cluster starts 3 days
  after the first Sunday of Lent, which is Ash Wednesday plus \<open>(6 - weekday) mod 7\<close>
  days; the Pentecost cluster starts 3 days after Pentecost Sunday; the September cluster
  starts 3 days after the third Sunday of September, which is the first Sunday on or
  after September 1 plus 14 days.  The twelve dates are pairwise distinct: the set has
  exactly 12 elements.  For the year 10000 the function returns no set: it raises
  \<open>ValueError\<close>.
\<close>

theorem ember_days_clusters:
  assumes "MINYEAR \<le> y" "y \<le> MAXYEAR"
  shows "\<exists>dec13 adv aw first_lent_sun lent p pent sept1 first_sun third_sun sept A L P S.
     date_new y 12 13 = Inr dec13 \<and> date_add dec13 ((2 - weekday dec13) mod 7) = Inr adv
     \<and> toordinal dec13 \<le> toordinal adv \<and> toordinal adv \<le> toordinal dec13 + 6 \<and> cluster adv A
     \<and> ash_wednesday y = Inr aw \<and> date_add aw ((6 - weekday aw) mod 7) = Inr first_lent_sun
     \<and> toordinal aw \<le> toordinal first_lent_sun \<and> toordinal first_lent_sun \<le> toordinal aw + 6
     \<and> weekday first_lent_sun = 6
     \<and> date_add first_lent_sun 3 = Inr lent \<and> cluster lent L
     \<and> pentecost_sunday y = Inr p \<and> date_add p 3 = Inr pent \<and> cluster pent P
     \<and> date_new y 9 1 = Inr sept1 \<and> date_add sept1 ((6 - weekday sept1) mod 7) = Inr first_sun
     \<and> toordinal sept1 \<le> toordinal first_sun \<and> toordinal first_sun \<le> toordinal sept1 + 6
     \<and> weekday first_sun = 6
     \<and> date_add first_sun 14 = Inr third_sun \<and> date_add third_sun 3 = Inr sept \<and> cluster sept S
     \<and> ember_days y = Inr (A \<union> L \<union> P \<union> S) \<and> card (A \<union> L \<union> P \<union> S) = 12"
  using assms by (rule ember_days_ok)

theorem ember_days_clusters_witness:
  "MINYEAR \<le> 2024 \<and> 2024 \<le> MAXYEAR
   \<and> (\<exists>adv A lent L pent P sept S. cluster adv A \<and> cluster lent L \<and> cluster pent P
        \<and> cluster sept S \<and> ember_days 2024 = Inr (A \<union> L \<union> P \<union> S)
        \<and> card (A \<union> L \<union> P \<union> S) = 12)"
proof -
  have a: "MINYEAR \<le> 2024" and b: "2024 \<le> MAXYEAR" by (simp_all add: MINYEAR_def MAXYEAR_def)
  show ?thesis using a b ember_days_clusters [OF a b] by blast
qed

theorem ember_days_10000_raises:
  "ember_days 10000 = Inl ValueError"
  by code_simp

text \<open>
  C6, as the code has it.  For every year \<open>y\<close> from 1 to 9999, the years of the
  \<open>date\<close> type, \<open>vigil_days(y)\<close> is the set of December 24, August 14, October 31, the
  day before Pentecost Sunday and June 28 of that year; the five dates are pairwise
  distinct, so the set has exactly 5 elements, and the day before Pentecost Sunday is a
  Saturday (\<open>weekday()\<close> is 5).  For the year 10000 the function returns no set: it
  raises \<open>ValueError\<close>.
\<close>

theorem vigil_days_set:
  assumes "MINYEAR \<le> y" "y \<le> MAXYEAR"
  shows "\<exists>p pv. pentecost_sunday y = Inr p \<and> date_sub p 1 = Inr pv
     \<and> toordinal pv = toordinal p - 1 \<and> weekday pv = 5
     \<and> vigil_days y = Inr {\<lparr>year = y, month = 12, day = 24\<rparr>, \<lparr>year = y, month = 8, day = 14\<rparr>,
          \<lparr>year = y, month = 10, day = 31\<rparr>, pv, \<lparr>year = y, month = 6, day = 28\<rparr>}
     \<and> card {\<lparr>year = y, month = 12, day = 24\<rparr>, \<lparr>year = y, month = 8, day = 14\<rparr>,
          \<lparr>year = y, month = 10, day = 31\<rparr>, pv, \<lparr>year = y, month = 6, day = 28\<rparr>} = 5"
  using assms by (rule vigil_days_ok)

theorem vigil_days_set_witness:
  "MINYEAR \<le> 2024 \<and> 2024 \<le> MAXYEAR
   \<and> (\<exists>pv. weekday pv = 5
        \<and> vigil_days 2024 = Inr {\<lparr>year = 2024, month = 12, day = 24\<rparr>,
             \<lparr>year = 2024, month = 8, day = 14\<rparr>, \<lparr>year = 2024, month = 10, day = 31\<rparr>, pv,
             \<lparr>year = 2024, month = 6, day = 28\<rparr>}
        \<and> card {\<lparr>year = 2024, month = 12, day = 24\<rparr>,
             \<lparr>year = 2024, month = 8, day = 14\<rparr>, \<lparr>year = 2024, month = 10, day = 31\<rparr>, pv,
             \<lparr>year = 2024, month = 6, day = 28\<rparr>} = 5)"
proof -
  have a: "MINYEAR \<le> 2024" and b: "2024 \<le> MAXYEAR" by (simp_all add: MINYEAR_def MAXYEAR_def)
  show ?thesis using a b vigil_days_set [OF a b] by blast
qed

theorem vigil_days_10000_raises:
  "vigil_days 10000 = Inl ValueError"
  by code_simp

section \<open>Claims about the classification\<close>

text \<open>
  C3.  For every date and title, and for either value of the switch
  \<open>MARK_SUNDAYS_AS_HOLY\<close>, the loop body yields a triple (holy, fast, abstinence) in
  which a true holy flag comes with both penitential flags false.  The holy flag is true
  exactly when the normalized title is in the holy-day list or the switch is on and the
  date is a Sunday; the override runs on the result of \<open>penitential_marks\<close>: when the
  holy flag is false the two flags are the ones \<open>penitential_marks\<close> returned.
\<close>

theorem holy_day_override:
  assumes "valid_date d"
  shows "\<exists>holy fast abst title pfast pabst.
     overlay_event mark_sundays_as_holy lower d raw = Inr ((holy, fast, abst), title)
     \<and> penitential_marks d = Inr (pfast, pabst)
     \<and> holy = (normalize_title lower (strip raw) \<in> HOLY_DAYS_1962_TITLES
               \<or> (mark_sundays_as_holy \<and> is_sunday d))
     \<and> (holy \<longrightarrow> \<not> fast \<and> \<not> abst)
     \<and> (\<not> holy \<longrightarrow> fast = pfast \<and> abst = pabst)"
proof -
  have y: "MINYEAR \<le> year d" "year d \<le> MAXYEAR" using assms valid_date_year by blast+
  obtain pfast pabst where p: "penitential_marks d = Inr (pfast, pabst)"
    using penitential_marks_total[OF y] by blast
  show ?thesis
    using overlay_event_result[OF p, of mark_sundays_as_holy lower raw] p
    unfolding event_holy_def by blast
qed

theorem holy_day_override_witness:
  "valid_date \<lparr>year = 2024, month = 12, day = 25\<rparr>
   \<and> normalize_title (\<lambda>s. s) (strip (codepoints ''christmas'')) \<in> HOLY_DAYS_1962_TITLES
   \<and> (\<exists>title. overlay_event False (\<lambda>s. s) \<lparr>year = 2024, month = 12, day = 25\<rparr>
         (codepoints ''christmas'') = Inr ((True, False, False), title))"
proof -
  have v: "valid_date \<lparr>year = 2024, month = 12, day = 25\<rparr>"
    by (simp add: valid_date_def MINYEAR_def MAXYEAR_def days_in_month_def DAYS_IN_MONTH_def)
  have n: "normalize_title (\<lambda>s. s) (strip (codepoints ''christmas'')) = codepoints ''christmas''"
    by code_simp
  have h: "normalize_title (\<lambda>s. s) (strip (codepoints ''christmas'')) \<in> HOLY_DAYS_1962_TITLES"
    unfolding n by (simp add: HOLY_DAYS_1962_TITLES_def)
  show ?thesis
    using v h holy_day_override [OF v, of False "\<lambda>s. s" "codepoints ''christmas''"] by auto
qed

text \<open>
  C4.  For every date \<open>d\<close>, \<open>penitential_marks(d)\<close> returns the disjunction of four
  rules and nothing else: abstinence holds on a Friday; fast and abstinence hold when
  Ash Wednesday \<open><=\<close> \<open>d\<close> \<open><=\<close> Holy Saturday (Easter minus 1 day) and \<open>d\<close> is not a
  Sunday, when \<open>d\<close> is in the ember-day set of its year and not a Sunday, and when \<open>d\<close>
  is in the vigil set of its year and not a Sunday.  So the loop body gives every Friday
  that is not a holy day a true abstinence flag.
\<close>

theorem penitential_marks_rules:
  assumes "valid_date d"
  shows "\<exists>e aw holy_saturday embers vigils.
     easter_gregorian (year d) = Inr e \<and> ash_wednesday (year d) = Inr aw
     \<and> date_sub e 1 = Inr holy_saturday \<and> ember_days (year d) = Inr embers
     \<and> vigil_days (year d) = Inr vigils
     \<and> penitential_marks d =
         Inr ((date_le aw d \<and> date_le d holy_saturday \<and> \<not> is_sunday d)
                \<or> (d \<in> embers \<and> \<not> is_sunday d) \<or> (d \<in> vigils \<and> \<not> is_sunday d),
              is_friday d \<or> (date_le aw d \<and> date_le d holy_saturday \<and> \<not> is_sunday d)
                \<or> (d \<in> embers \<and> \<not> is_sunday d) \<or> (d \<in> vigils \<and> \<not> is_sunday d))
     \<and> (\<forall>mark_sundays_as_holy lower raw holy fast abst title.
          overlay_event mark_sundays_as_holy lower d raw = Inr ((holy, fast, abst), title)
          \<longrightarrow> is_friday d \<longrightarrow> \<not> holy \<longrightarrow> abst)"
proof -
  have y: "MINYEAR \<le> year d" "year d \<le> MAXYEAR" using assms valid_date_year by blast+
  obtain e aw hs embers vigils where r: "easter_gregorian (year d) = Inr e"
    "ash_wednesday (year d) = Inr aw" "date_sub e 1 = Inr hs" "ember_days (year d) = Inr embers"
    "vigil_days (year d) = Inr vigils"
    and p: "penitential_marks d =
         Inr ((date_le aw d \<and> date_le d hs \<and> \<not> is_sunday d)
                \<or> (d \<in> embers \<and> \<not> is_sunday d) \<or> (d \<in> vigils \<and> \<not> is_sunday d),
              is_friday d \<or> (date_le aw d \<and> date_le d hs \<and> \<not> is_sunday d)
                \<or> (d \<in> embers \<and> \<not> is_sunday d) \<or> (d \<in> vigils \<and> \<not> is_sunday d))"
    using penitential_marks_ok[OF y] by blast
  have "\<forall>ms lower raw holy fast abst title.
          overlay_event ms lower d raw = Inr ((holy, fast, abst), title)
          \<longrightarrow> is_friday d \<longrightarrow> \<not> holy \<longrightarrow> abst"
    using overlay_event_result[OF p] by auto
  then show ?thesis using r p by blast
qed

theorem penitential_marks_rules_witness:
  "valid_date \<lparr>year = 2024, month = 6, day = 28\<rparr>
   \<and> is_friday \<lparr>year = 2024, month = 6, day = 28\<rparr>
   \<and> overlay_event False (\<lambda>s. s) \<lparr>year = 2024, month = 6, day = 28\<rparr> (codepoints ''Feria'')
       = Inr ((False, True, True), [0x26D4, 0x1F41F, 0x20] @ codepoints ''Feria'')
   \<and> (\<exists>fast. penitential_marks \<lparr>year = 2024, month = 6, day = 28\<rparr> = Inr (fast, True))"
proof -
  have v: "valid_date \<lparr>year = 2024, month = 6, day = 28\<rparr>"
    by (simp add: valid_date_def MINYEAR_def MAXYEAR_def days_in_month_def DAYS_IN_MONTH_def)
  have f: "is_friday \<lparr>year = 2024, month = 6, day = 28\<rparr>" by code_simp
  have o: "overlay_event False (\<lambda>s. s) \<lparr>year = 2024, month = 6, day = 28\<rparr> (codepoints ''Feria'')
       = Inr ((False, True, True), [0x26D4, 0x1F41F, 0x20] @ codepoints ''Feria'')"
    by code_simp
  from penitential_marks_rules [OF v] f
  have "\<exists>fast. penitential_marks \<lparr>year = 2024, month = 6, day = 28\<rparr> = Inr (fast, True)"
    by auto
  then show ?thesis using v f o by blast
qed

text \<open>
  C10.  For every date, a true fast flag comes with a true abstinence flag, in the pair
  that \<open>penitential_marks\<close> returns and in the final triple of the loop body: every rule
  that sets fast sets abstinence, and the override clears both.  So the prefix is never
  one that has the fast marker without the abstinence marker.
\<close>

theorem fast_implies_abstinence:
  assumes "valid_date d"
  shows "\<exists>holy fast abst title pfast pabst.
     overlay_event mark_sundays_as_holy lower d raw = Inr ((holy, fast, abst), title)
     \<and> penitential_marks d = Inr (pfast, pabst)
     \<and> (pfast \<longrightarrow> pabst) \<and> (fast \<longrightarrow> abst)
     \<and> build_prefix holy fast abst \<noteq> SYM_FAST
     \<and> build_prefix holy fast abst \<noteq> SYM_HOLYDAY @ SYM_FAST"
proof -
  have y: "MINYEAR \<le> year d" "year d \<le> MAXYEAR" using assms valid_date_year by blast+
  obtain pfast pabst where p: "penitential_marks d = Inr (pfast, pabst)" "pfast \<longrightarrow> pabst"
    using penitential_marks_total[OF y] by blast
  define holy where "holy = event_holy mark_sundays_as_holy lower d raw"
  have o: "overlay_event mark_sundays_as_holy lower d raw =
     Inr ((holy, \<not> holy \<and> pfast, \<not> holy \<and> pabst),
          event_title holy (\<not> holy \<and> pfast) (\<not> holy \<and> pabst) raw)"
    unfolding holy_def by (rule overlay_event_result[OF p(1)])
  have i: "(\<not> holy \<and> pfast) \<longrightarrow> (\<not> holy \<and> pabst)" using p(2) by blast
  have b: "build_prefix holy (\<not> holy \<and> pfast) (\<not> holy \<and> pabst) \<noteq> SYM_FAST
     \<and> build_prefix holy (\<not> holy \<and> pfast) (\<not> holy \<and> pabst) \<noteq> SYM_HOLYDAY @ SYM_FAST"
    using i by (cases holy; cases pfast; cases pabst)
      (simp_all add: build_prefix_def SYM_HOLYDAY_def SYM_FAST_def SYM_ABST_def)
  show ?thesis using o p i b by blast
qed

theorem fast_implies_abstinence_witness:
  "valid_date \<lparr>year = 2024, month = 2, day = 14\<rparr>
   \<and> penitential_marks \<lparr>year = 2024, month = 2, day = 14\<rparr> = Inr (True, True)
   \<and> (\<exists>holy fast abst title.
        overlay_event False (\<lambda>s. s) \<lparr>year = 2024, month = 2, day = 14\<rparr> (codepoints ''Feria'')
          = Inr ((holy, fast, abst), title) \<and> (fast \<longrightarrow> abst))"
proof -
  have v: "valid_date \<lparr>year = 2024, month = 2, day = 14\<rparr>"
    by (simp add: valid_date_def MINYEAR_def MAXYEAR_def days_in_month_def DAYS_IN_MONTH_def
          is_leap_def)
  have p: "penitential_marks \<lparr>year = 2024, month = 2, day = 14\<rparr> = Inr (True, True)"
    by code_simp
  from fast_implies_abstinence [OF v, of False "\<lambda>s. s" "codepoints ''Feria''"]
  have "\<exists>holy fast abst title.
        overlay_event False (\<lambda>s. s) \<lparr>year = 2024, month = 2, day = 14\<rparr> (codepoints ''Feria'')
          = Inr ((holy, fast, abst), title) \<and> (fast \<longrightarrow> abst)"
    by blast
  then show ?thesis using v p by blast
qed

section \<open>Claims about the titles\<close>

text \<open>
  C8.  The loop body is idempotent through the title it writes: for every date and
  title, running it again on the rewritten title (the prefix, a space and the base
  without symbols, or the base alone when no flag is set) yields the same triple (holy,
  fast, abstinence) and the same rewritten title, because \<open>strip_existing_symbols\<close> and
  \<open>normalize_title\<close> remove the leading marker symbols before the title is matched.
\<close>

theorem overlay_event_idempotent:
  assumes "valid_date d"
  shows "\<exists>triple title.
     overlay_event mark_sundays_as_holy lower d raw = Inr (triple, title)
     \<and> overlay_event mark_sundays_as_holy lower d title = Inr (triple, title)
     \<and> strip_existing_symbols (strip title) = strip_existing_symbols (strip raw)
     \<and> normalize_title lower (strip title) = normalize_title lower (strip raw)"
proof -
  have y: "MINYEAR \<le> year d" "year d \<le> MAXYEAR" using assms valid_date_year by blast+
  obtain pfast pabst where p: "penitential_marks d = Inr (pfast, pabst)"
    using penitential_marks_total[OF y] by blast
  define holy where "holy = event_holy mark_sundays_as_holy lower d raw"
  define fast where "fast = (\<not> holy \<and> pfast)"
  define abst where "abst = (\<not> holy \<and> pabst)"
  define title where "title = event_title holy fast abst raw"
  have o: "overlay_event mark_sundays_as_holy lower d raw = Inr ((holy, fast, abst), title)"
    unfolding holy_def fast_def abst_def title_def by (rule overlay_event_result[OF p])
  have h: "event_holy mark_sundays_as_holy lower d title = holy"
    unfolding title_def holy_def by (rule event_holy_title)
  have t: "event_title holy fast abst title = title"
    unfolding title_def by (rule event_title_title)
  have o': "overlay_event mark_sundays_as_holy lower d title = Inr ((holy, fast, abst), title)"
    using overlay_event_result[OF p, of mark_sundays_as_holy lower title]
    unfolding h fast_def[symmetric] abst_def[symmetric] t .
  have b: "sym_token (strip_existing_symbols (strip raw)) = None"
    "stripped (strip_existing_symbols (strip raw))"
    using strip_existing_symbols_props by blast+
  have s: "strip_existing_symbols (strip title) = strip_existing_symbols (strip raw)"
    unfolding title_def event_title_def using b by (rule strip_existing_symbols_retitle)
  have n: "normalize_title lower (strip title) = normalize_title lower (strip raw)"
    unfolding normalize_title_via_base s ..
  show ?thesis using o o' s n by blast
qed

theorem overlay_event_idempotent_witness:
  "valid_date \<lparr>year = 2024, month = 2, day = 14\<rparr>
   \<and> overlay_event False (\<lambda>s. s) \<lparr>year = 2024, month = 2, day = 14\<rparr>
        ([0x20, 0x26D4] @ codepoints ''Ash  Wednesday '')
      = Inr ((False, True, True), [0x26D4, 0x1F41F, 0x20] @ codepoints ''Ash  Wednesday'')
   \<and> overlay_event False (\<lambda>s. s) \<lparr>year = 2024, month = 2, day = 14\<rparr>
        ([0x26D4, 0x1F41F, 0x20] @ codepoints ''Ash  Wednesday'')
      = Inr ((False, True, True), [0x26D4, 0x1F41F, 0x20] @ codepoints ''Ash  Wednesday'')"
proof -
  have v: "valid_date \<lparr>year = 2024, month = 2, day = 14\<rparr>"
    by (simp add: valid_date_def MINYEAR_def MAXYEAR_def days_in_month_def DAYS_IN_MONTH_def
          is_leap_def)
  have o: "overlay_event False (\<lambda>s. s) \<lparr>year = 2024, month = 2, day = 14\<rparr>
        ([0x20, 0x26D4] @ codepoints ''Ash  Wednesday '')
      = Inr ((False, True, True), [0x26D4, 0x1F41F, 0x20] @ codepoints ''Ash  Wednesday'')"
    by code_simp
  from overlay_event_idempotent
    [OF v, of False "\<lambda>s. s" "[0x20, 0x26D4] @ codepoints ''Ash  Wednesday ''"]
  obtain triple title where
    a: "overlay_event False (\<lambda>s. s) \<lparr>year = 2024, month = 2, day = 14\<rparr>
          ([0x20, 0x26D4] @ codepoints ''Ash  Wednesday '') = Inr (triple, title)"
    and b: "overlay_event False (\<lambda>s. s) \<lparr>year = 2024, month = 2, day = 14\<rparr> title
          = Inr (triple, title)"
    by blast
  have "triple = (False, True, True)"
    and "title = [0x26D4, 0x1F41F, 0x20] @ codepoints ''Ash  Wednesday''"
    using a unfolding o by simp_all
  then show ?thesis using v o b by simp
qed

text \<open>
  C9.  For every triple of flags, \<open>build_prefix\<close> is the concatenation, in the order
  holy-day marker, fast marker, abstinence marker, of exactly the markers whose flag is
  true; it is empty exactly when no flag is true.  The loop body writes the prefix, one
  space and the base title when the prefix is not empty and the base title alone
  otherwise, and the base title never starts with whitespace, so exactly one space
  separates the two.  The triple (true, false, false) gives the base title behind the
  code points of the holy-day marker and a space.
\<close>

theorem build_prefix_rendering:
  "build_prefix h f a =
     (if h then SYM_HOLYDAY else []) @ (if f then SYM_FAST else []) @ (if a then SYM_ABST else [])
   \<and> (build_prefix h f a = []) = (\<not> h \<and> \<not> f \<and> \<not> a)
   \<and> build_prefix True False False @ [0x20] @ base = [0x271D, 0xFE0F, 0x20] @ base
   \<and> (strip_existing_symbols (strip raw) = []
        \<or> \<not> is_space (hd (strip_existing_symbols (strip raw))))
   \<and> (valid_date d \<longrightarrow>
        (\<exists>holy fast abst.
           overlay_event mark_sundays_as_holy lower d raw =
             Inr ((holy, fast, abst),
                  if holy \<or> fast \<or> abst
                  then build_prefix holy fast abst @ [0x20] @ strip_existing_symbols (strip raw)
                  else strip_existing_symbols (strip raw))))"
proof -
  have 1: "build_prefix h f a =
     (if h then SYM_HOLYDAY else []) @ (if f then SYM_FAST else []) @ (if a then SYM_ABST else [])"
    by (rule build_prefix_eq)
  have 2: "(build_prefix h f a = []) = (\<not> h \<and> \<not> f \<and> \<not> a)"
    using build_prefix_nonempty[of h f a] by blast
  have 3: "build_prefix True False False @ [0x20] @ base = [0x271D, 0xFE0F, 0x20] @ base"
    by (simp add: build_prefix_def SYM_HOLYDAY_def)
  have "sym_token (strip_existing_symbols (strip raw)) = None"
    using strip_existing_symbols_props by blast
  then have 4: "strip_existing_symbols (strip raw) = []
        \<or> \<not> is_space (hd (strip_existing_symbols (strip raw)))"
    by (rule sym_token_None_no_space)
  have 5: "valid_date d \<longrightarrow>
        (\<exists>holy fast abst.
           overlay_event mark_sundays_as_holy lower d raw =
             Inr ((holy, fast, abst),
                  if holy \<or> fast \<or> abst
                  then build_prefix holy fast abst @ [0x20] @ strip_existing_symbols (strip raw)
                  else strip_existing_symbols (strip raw)))"
  proof
    assume "valid_date d"
    then have y: "MINYEAR \<le> year d" "year d \<le> MAXYEAR" using valid_date_year by blast+
    obtain pfast pabst where p: "penitential_marks d = Inr (pfast, pabst)"
      using penitential_marks_total[OF y] by blast
    show "\<exists>holy fast abst.
           overlay_event mark_sundays_as_holy lower d raw =
             Inr ((holy, fast, abst),
                  if holy \<or> fast \<or> abst
                  then build_prefix holy fast abst @ [0x20] @ strip_existing_symbols (strip raw)
                  else strip_existing_symbols (strip raw))"
      using overlay_event_result[OF p, of mark_sundays_as_holy lower raw]
      unfolding event_title_def build_prefix_nonempty by blast
  qed
  show ?thesis using 1 2 3 4 5 by blast
qed

theorem build_prefix_rendering_witness:
  "valid_date \<lparr>year = 2024, month = 12, day = 25\<rparr>
   \<and> overlay_event False (\<lambda>s. s) \<lparr>year = 2024, month = 12, day = 25\<rparr> (codepoints ''christmas'')
       = Inr ((True, False, False), [0x271D, 0xFE0F, 0x20] @ codepoints ''christmas'')
   \<and> (\<exists>holy fast abst.
         overlay_event False (\<lambda>s. s) \<lparr>year = 2024, month = 12, day = 25\<rparr> (codepoints ''christmas'')
           = Inr ((holy, fast, abst),
                  if holy \<or> fast \<or> abst
                  then build_prefix holy fast abst @ [0x20]
                         @ strip_existing_symbols (strip (codepoints ''christmas''))
                  else strip_existing_symbols (strip (codepoints ''christmas''))))"
proof -
  have v: "valid_date \<lparr>year = 2024, month = 12, day = 25\<rparr>"
    by (simp add: valid_date_def MINYEAR_def MAXYEAR_def days_in_month_def DAYS_IN_MONTH_def)
  have o: "overlay_event False (\<lambda>s. s) \<lparr>year = 2024, month = 12, day = 25\<rparr>
        (codepoints ''christmas'')
      = Inr ((True, False, False), [0x271D, 0xFE0F, 0x20] @ codepoints ''christmas'')"
    by code_simp
  show ?thesis
    using v o build_prefix_rendering
      [of True False False "[]" "codepoints ''christmas''"
          "\<lparr>year = 2024, month = 12, day = 25\<rparr>" False "\<lambda>s. s"]
    by blast
qed

end
